theory Spec2Isabelle
  imports Complex_Main
begin

section \<open>Numbers of the program\<close>

text \<open>
  The source is Python with numpy and scipy. Its numbers are IEEE doubles; the embedding
  takes every finite double as a real (no rounding, one zero) and keeps the three
  non-finite doubles as constructors of their own.

  The range of the doubles is modelled where the code computes on its arguments: the
  quotient \<^verbatim>\<open>x / y\<close>, its powers, the squares \<^verbatim>\<open>r**2\<close> and \<^verbatim>\<open>rho**2\<close> and the
  phase \<^verbatim>\<open>np.pi / 2 * (r**2 + rho**2)\<close>. There a result beyond the largest finite
  double is an infinity, or an \<^verbatim>\<open>OverflowError\<close> where Python raises one. The values
  of \<^verbatim>\<open>jn\<close> are reals (the function is a parameter of the model), and the sums and
  products that involve them are exact.
\<close>

datatype fval = Fin real | PInf | NInf | NaN

text \<open>
  The exceptions the modelled code can raise: \<^verbatim>\<open>ValueError\<close> is the explicit
  \<^verbatim>\<open>raise\<close> of \<^verbatim>\<open>lommel_u\<close> (the spec's DomainError);
  \<^verbatim>\<open>ZeroDivisionError\<close> is what Python's own \<^verbatim>\<open>/\<close> and \<^verbatim>\<open>**\<close> raise on
  built-in numbers; \<^verbatim>\<open>OverflowError\<close> is what \<^verbatim>\<open>**\<close> raises on a built-in float
  when the result is out of range; \<^verbatim>\<open>IndexError\<close> is what a store outside an array
  raises. \<^verbatim>\<open>np.linspace\<close> raises a \<^verbatim>\<open>ValueError\<close> too, for a negative number of
  samples.
\<close>

datatype error = ValueError | ZeroDivisionError | OverflowError | IndexError

text \<open>
  An argument is a finite double, either a built-in Python \<^verbatim>\<open>float\<close> (the type the
  docstrings name) or a \<^verbatim>\<open>numpy.float64\<close>, as the elements of \<^verbatim>\<open>np.linspace\<close> are.
  The two kinds compare alike and differ in division by zero and in powers out of range:
  built-in floats raise, numpy scalars return a non-finite value (and only warn).
\<close>

datatype pynum = PyNum real | NpNum real

fun val :: "pynum \<Rightarrow> real" where
  "val (PyNum a) = a"
| "val (NpNum a) = a"

fun is_np :: "pynum \<Rightarrow> bool" where
  "is_np (PyNum a) = False"
| "is_np (NpNum a) = True"

subsection \<open>Arithmetic on doubles\<close>

text \<open>
  The largest finite double, \<open>(2 - 2\<^sup>-\<^sup>5\<^sup>2) 2\<^sup>1\<^sup>0\<^sup>2\<^sup>3\<close>, and the bound \<open>2\<^sup>-\<^sup>1\<^sup>0\<^sup>7\<^sup>5\<close> (half the
  smallest positive double) up to which a magnitude is the double zero.
\<close>

definition max_float :: real where
  "max_float = (2 - 1 / 2 ^ 52) * 2 ^ 1023"

definition float_tiny :: real where
  "float_tiny = 1 / 2 ^ 1075"

text \<open>
  The double that holds an exact result \<open>v\<close> of finite operands: an infinity once \<open>v\<close>
  is beyond the largest finite double, \<open>v\<close> itself otherwise. \<open>range_check\<close> is the same
  for a result that may be non-finite already.
\<close>

definition fl :: "real \<Rightarrow> fval" where
  "fl v = (if max_float < v then PInf else if v < - max_float then NInf else Fin v)"

definition range_check :: "fval \<Rightarrow> fval" where
  "range_check v = (case v of Fin a \<Rightarrow> fl a | _ \<Rightarrow> v)"

fun fsgn :: "fval \<Rightarrow> real" where
  "fsgn (Fin a) = sgn a"
| "fsgn PInf = 1"
| "fsgn NInf = - 1"
| "fsgn NaN = 0"

definition inf_of :: "real \<Rightarrow> fval" where
  "inf_of s = (if 0 < s then PInf else NInf)"

text \<open>Product of doubles: \<open>inf * 0\<close> is NaN, NaN is absorbing.\<close>

fun fmul :: "fval \<Rightarrow> fval \<Rightarrow> fval" where
  "fmul NaN b = NaN"
| "fmul a NaN = NaN"
| "fmul (Fin a) (Fin b) = Fin (a * b)"
| "fmul a b = (if fsgn a * fsgn b = 0 then NaN else inf_of (fsgn a * fsgn b))"

text \<open>Sum of doubles: \<open>inf + (-inf)\<close> is NaN, NaN is absorbing.\<close>

fun fadd :: "fval \<Rightarrow> fval \<Rightarrow> fval" where
  "fadd NaN b = NaN"
| "fadd a NaN = NaN"
| "fadd (Fin a) (Fin b) = Fin (a + b)"
| "fadd PInf NInf = NaN"
| "fadd NInf PInf = NaN"
| "fadd PInf b = PInf"
| "fadd NInf b = NInf"
| "fadd a PInf = PInf"
| "fadd a NInf = NInf"

text \<open>
  \<^verbatim>\<open>a / b\<close> on numpy doubles with finite operands: a zero divisor gives NaN for
  \<open>0 / 0\<close> and an infinity with the sign of the dividend otherwise; a quotient out of
  range is an infinity.
\<close>

definition np_div :: "real \<Rightarrow> real \<Rightarrow> fval" where
  "np_div a b =
     (if b = 0 then (if a = 0 then NaN else inf_of a) else fl (a / b))"

text \<open>
  \<^verbatim>\<open>b ** m\<close> for a double \<open>b\<close> and a Python integer \<open>m\<close> (C's \<^verbatim>\<open>pow\<close>), before
  the range of the result is looked at: the exponent zero gives one for every base, NaN
  included. The calculator applies it as it stands to the results of \<^verbatim>\<open>lommel_u\<close>
  (\<^verbatim>\<open>u1**2\<close>), which are sums of values of \<^verbatim>\<open>jn\<close>.
\<close>

fun np_pow :: "fval \<Rightarrow> int \<Rightarrow> fval" where
  "np_pow (Fin a) m =
     (if m = 0 then Fin 1
      else if 0 < m then Fin (a ^ nat m)
      else if a = 0 then PInf
      else Fin (1 / a ^ nat (- m)))"
| "np_pow PInf m = (if m = 0 then Fin 1 else if 0 < m then PInf else Fin 0)"
| "np_pow NInf m =
     (if m = 0 then Fin 1
      else if 0 < m then (if even m then PInf else NInf)
      else Fin 0)"
| "np_pow NaN m = (if m = 0 then Fin 1 else NaN)"

text \<open>
  \<^verbatim>\<open>x / y\<close> as Python dispatches it: numpy's division as soon as one operand is a
  numpy scalar, the built-in one otherwise. The built-in division raises on a zero
  divisor; a quotient out of range is an infinity there too, without an error.
\<close>

definition true_div :: "pynum \<Rightarrow> pynum \<Rightarrow> error + fval" where
  "true_div x y =
     (if is_np x \<or> is_np y then Inr (np_div (val x) (val y))
      else if val y = 0 then Inl ZeroDivisionError
      else Inr (fl (val x / val y)))"

text \<open>
  \<^verbatim>\<open>q ** m\<close> for a double \<open>q\<close> computed from the arguments (the quotient above, or
  \<open>r\<close> and \<open>rho\<close> themselves) and a Python integer \<open>m\<close>; \<open>np\<close> tells whether \<open>q\<close> is
  a numpy scalar. A numpy scalar never raises: a power out of range is an infinity. A
  built-in float raises \<^verbatim>\<open>ZeroDivisionError\<close> for zero to a negative power (zero
  being every magnitude that is the double zero, a quotient that underflows included) and
  \<^verbatim>\<open>OverflowError\<close> for a finite base whose power is out of range; the powers of an
  infinite or NaN base are returned as they are.
\<close>

definition pow_int :: "bool \<Rightarrow> fval \<Rightarrow> int \<Rightarrow> error + fval" where
  "pow_int np q m =
     (if np then Inr (range_check (np_pow q m))
      else
        (case q of
           Fin a \<Rightarrow>
             (if \<bar>a\<bar> \<le> float_tiny \<and> m < 0 then Inl ZeroDivisionError
              else
                (case range_check (np_pow (Fin a) m) of
                   Fin v \<Rightarrow> Inr (Fin v)
                 | _ \<Rightarrow> Inl OverflowError))
         | _ \<Rightarrow> Inr (np_pow q m)))"

section \<open>The Lommel series evaluator\<close>

text \<open>
  \<^verbatim>\<open>scipy.special.jn\<close> is a library function outside the repository; every definition
  takes it as the parameter \<open>jn\<close>, from the order and a finite argument to a finite
  value, and passes it the exact product \<^verbatim>\<open>np.pi * x * y\<close>.

  One term of the loop body,
  \<^verbatim>\<open>(-1)**k * (x / y)**(n + 2 * k) * jn(n + 2 * k, np.pi * x * y)\<close>,
  evaluated left to right.
\<close>

definition lommel_term ::
  "(int \<Rightarrow> real \<Rightarrow> real) \<Rightarrow> int \<Rightarrow> pynum \<Rightarrow> pynum \<Rightarrow> nat \<Rightarrow> error + fval" where
  "lommel_term jn n x y k =
     (case true_div x y of
        Inl e \<Rightarrow> Inl e
      | Inr q \<Rightarrow>
          (case pow_int (is_np x \<or> is_np y) q (n + 2 * int k) of
             Inl e \<Rightarrow> Inl e
           | Inr p \<Rightarrow>
               Inr (fmul (fmul (Fin ((- 1) ^ k)) p)
                      (Fin (jn (n + 2 * int k) (pi * val x * val y))))))"

text \<open>The \<^verbatim>\<open>for k in range(...)\<close> loop with its accumulator \<^verbatim>\<open>sum_result\<close>.\<close>

fun lommel_loop ::
  "(int \<Rightarrow> real \<Rightarrow> real) \<Rightarrow> int \<Rightarrow> pynum \<Rightarrow> pynum \<Rightarrow> nat list \<Rightarrow> fval \<Rightarrow> error + fval" where
  "lommel_loop jn n x y [] sum_result = Inr sum_result"
| "lommel_loop jn n x y (k # ks) sum_result =
     (case lommel_term jn n x y k of
        Inl e \<Rightarrow> Inl e
      | Inr t \<Rightarrow> lommel_loop jn n x y ks (fadd sum_result t))"

definition lommel_u ::
  "(int \<Rightarrow> real \<Rightarrow> real) \<Rightarrow> int \<Rightarrow> pynum \<Rightarrow> pynum \<Rightarrow> error + fval" where
  "lommel_u jn n x y =
     (if val x > val y then Inl ValueError
      else lommel_loop jn n x y [0..<50] (Fin 0))"

section \<open>The occultation intensity calculator\<close>

text \<open>
  \<^verbatim>\<open>np.sin\<close> and \<^verbatim>\<open>np.cos\<close>: NaN at an infinity and at NaN.
\<close>

definition np_sin :: "fval \<Rightarrow> fval" where
  "np_sin a = (case a of Fin v \<Rightarrow> Fin (sin v) | _ \<Rightarrow> NaN)"

definition np_cos :: "fval \<Rightarrow> fval" where
  "np_cos a = (case a of Fin v \<Rightarrow> Fin (cos v) | _ \<Rightarrow> NaN)"

text \<open>
  The phase \<^verbatim>\<open>np.pi / 2 * (r**2 + rho**2)\<close>, which the source writes out twice, under
  the sine and under the cosine. A square out of range raises \<^verbatim>\<open>OverflowError\<close> on a
  built-in float and is an infinity on a numpy scalar; the sum and the product never raise
  and give an infinity when they are out of range.
\<close>

definition phase :: "pynum \<Rightarrow> pynum \<Rightarrow> error + fval" where
  "phase r rho =
     (case pow_int (is_np r) (Fin (val r)) 2 of
        Inl e \<Rightarrow> Inl e
      | Inr r2 \<Rightarrow>
          (case pow_int (is_np rho) (Fin (val rho)) 2 of
             Inl e \<Rightarrow> Inl e
           | Inr rho2 \<Rightarrow>
               Inr (range_check (fmul (Fin (pi / 2)) (range_check (fadd r2 rho2))))))"

text \<open>
  Both branches of \<^verbatim>\<open>occultation_intensity\<close>. The results of \<^verbatim>\<open>lommel_u\<close> are
  numpy doubles, so \<^verbatim>\<open>u1**2\<close> is numpy's power and \<^verbatim>\<open>term1\<close> raises nothing; the
  phase is evaluated after it, inside \<^verbatim>\<open>term2\<close>.
\<close>

definition occultation_intensity ::
  "(int \<Rightarrow> real \<Rightarrow> real) \<Rightarrow> pynum \<Rightarrow> pynum \<Rightarrow> error + fval" where
  "occultation_intensity jn r rho =
     (if val r \<ge> val rho then
        (case lommel_u jn 1 rho r of
           Inl e \<Rightarrow> Inl e
         | Inr u1 \<Rightarrow>
             (case lommel_u jn 2 rho r of
                Inl e \<Rightarrow> Inl e
              | Inr u2 \<Rightarrow>
                  (case phase r rho of
                     Inl e \<Rightarrow> Inl e
                   | Inr a \<Rightarrow>
                       (let term1 = fadd (fadd (Fin 1) (np_pow u1 2)) (np_pow u2 2);
                            term2 = fmul (fmul (Fin (- 2)) u1) (np_sin a);
                            term3 = fmul (fmul (Fin 2) u2) (np_cos a)
                        in Inr (fadd (fadd term1 term2) term3)))))
      else
        (case lommel_u jn 0 r rho of
           Inl e \<Rightarrow> Inl e
         | Inr u0 \<Rightarrow>
             (case lommel_u jn 1 r rho of
                Inl e \<Rightarrow> Inl e
              | Inr u1 \<Rightarrow> Inr (fadd (np_pow u0 2) (np_pow u1 2)))))"

section \<open>The series of the specification\<close>

text \<open>
  The truncated series as the specification writes it, over the reals:
  \<open>U\<^sub>n(x, y) = \<Sum>\<^sub>k\<^sub><\<^sub>5\<^sub>0 (-1)\<^sup>k (x/y)\<^bsup>n+2k\<^esup> J\<^bsub>n+2k\<^esub>(\<pi> x y)\<close>.
\<close>

definition lommel_series :: "(int \<Rightarrow> real \<Rightarrow> real) \<Rightarrow> int \<Rightarrow> real \<Rightarrow> real \<Rightarrow> real" where
  "lommel_series jn n x y =
     (\<Sum>k<50. (- 1) ^ k * (x / y) ^ (nat n + 2 * k) * jn (n + 2 * int k) (pi * x * y))"

text \<open>
  Modelled from the spec: \<^verbatim>\<open>scipy.special.jn\<close> is not part of the repository; the
  specification names it as the cylindrical Bessel function of the first kind of integer
  order. This is that function, by its power series
  \<open>J\<^sub>m(z) = \<Sum>\<^sub>j (-1)\<^sup>j / (j! (j+m)!) (z/2)\<^bsup>2j+m\<^esup>\<close> and \<open>J\<^bsub>-m\<^esub> = (-1)\<^sup>m J\<^sub>m\<close>.
  It instantiates the parameter \<open>jn\<close> wherever a statement is about one concrete call.
\<close>

definition bessel_term :: "nat \<Rightarrow> real \<Rightarrow> nat \<Rightarrow> real" where
  "bessel_term m z j = (- 1) ^ j / (fact j * fact (j + m)) * (z / 2) ^ (2 * j + m)"

definition bessel_series :: "nat \<Rightarrow> real \<Rightarrow> real" where
  "bessel_series m z = (\<Sum>j. bessel_term m z j)"

definition bessel_j :: "int \<Rightarrow> real \<Rightarrow> real" where
  "bessel_j m z =
     (if 0 \<le> m then bessel_series (nat m) z
      else (- 1) ^ nat (- m) * bessel_series (nat (- m)) z)"

section \<open>The look-up table\<close>

text \<open>
  \<^verbatim>\<open>np.linspace(start, stop, num)\<close>: \<open>num\<close> evenly spaced numpy doubles from
  \<open>start\<close> to \<open>stop\<close>, both included; one sample is \<open>start\<close> alone, a negative
  \<open>num\<close> raises \<^verbatim>\<open>ValueError\<close>.
\<close>

definition linspace :: "real \<Rightarrow> real \<Rightarrow> int \<Rightarrow> error + pynum list" where
  "linspace start stop num =
     (if num < 0 then Inl ValueError
      else if num = 1 then Inr [NpNum start]
      else Inr (map (\<lambda>i. NpNum (start + real i * ((stop - start) / real_of_int (num - 1))))
                  [0..<nat num]))"

text \<open>A row of \<^verbatim>\<open>lut_array\<close>: \<open>r\<close>, \<open>rho\<close> and the intensity.\<close>

type_synonym row = "real \<times> real \<times> fval"

text \<open>\<^verbatim>\<open>lut_array[idx] = v\<close>, with numpy's bounds check.\<close>

definition set_row :: "row list \<Rightarrow> nat \<Rightarrow> row \<Rightarrow> error + row list" where
  "set_row lut_array idx v =
     (if idx < length lut_array then Inr (lut_array[idx := v]) else Inl IndexError)"

text \<open>
  The inner loop \<^verbatim>\<open>for j, rho in enumerate(rho_points)\<close> for one \<open>i\<close> and \<open>r\<close>, and
  the outer loop \<^verbatim>\<open>for i, r in enumerate(r_points)\<close>; the table is passed through.
\<close>

fun lut_inner ::
  "(int \<Rightarrow> real \<Rightarrow> real) \<Rightarrow> nat \<Rightarrow> nat \<Rightarrow> pynum \<Rightarrow> (nat \<times> pynum) list \<Rightarrow> row list
     \<Rightarrow> error + row list" where
  "lut_inner jn num_points i r [] lut_array = Inr lut_array"
| "lut_inner jn num_points i r ((j, rho) # rest) lut_array =
     (case occultation_intensity jn r rho of
        Inl e \<Rightarrow> Inl e
      | Inr v \<Rightarrow>
          (case set_row lut_array (i * num_points + j) (val r, val rho, v) of
             Inl e \<Rightarrow> Inl e
           | Inr lut_array' \<Rightarrow> lut_inner jn num_points i r rest lut_array'))"

fun lut_outer ::
  "(int \<Rightarrow> real \<Rightarrow> real) \<Rightarrow> nat \<Rightarrow> (nat \<times> pynum) list \<Rightarrow> (nat \<times> pynum) list \<Rightarrow> row list
     \<Rightarrow> error + row list" where
  "lut_outer jn num_points [] rho_points lut_array = Inr lut_array"
| "lut_outer jn num_points ((i, r) # rest) rho_points lut_array =
     (case lut_inner jn num_points i r rho_points lut_array of
        Inl e \<Rightarrow> Inl e
      | Inr lut_array' \<Rightarrow> lut_outer jn num_points rest rho_points lut_array')"

text \<open>
  The build of the \<^verbatim>\<open>__main__\<close> block, with its literals as parameters:
  \<^verbatim>\<open>num_points\<close> (400 in the source), the upper end of the \<open>r\<close> axis (20; the axis
  starts at 0) and both ends of the \<open>rho\<close> axis (0.01 and 20). The table starts as
  \<^verbatim>\<open>np.zeros((num_points ** 2, 3))\<close>.
\<close>

definition build_lut ::
  "(int \<Rightarrow> real \<Rightarrow> real) \<Rightarrow> int \<Rightarrow> real \<Rightarrow> real \<Rightarrow> real \<Rightarrow> error + row list" where
  "build_lut jn num_points r_max rho_min rho_max =
     (case linspace 0 r_max num_points of
        Inl e \<Rightarrow> Inl e
      | Inr r_points \<Rightarrow>
          (case linspace rho_min rho_max num_points of
             Inl e \<Rightarrow> Inl e
           | Inr rho_points \<Rightarrow>
               lut_outer jn (nat num_points) (enumerate 0 r_points) (enumerate 0 rho_points)
                 (replicate (nat (num_points\<^sup>2)) (0, 0, Fin 0))))"

definition main_lut :: "(int \<Rightarrow> real \<Rightarrow> real) \<Rightarrow> error + row list" where
  "main_lut jn = build_lut jn 400 20 (1 / 100) 20"

section \<open>Evaluation schemes for the proofs\<close>

text \<open>
  Nothing below translates source code: these are the exact integer computations by which
  the proofs bound Bessel values. \<open>bessel_horner\<close> evaluates a partial sum of the Bessel
  series in Horner form, as a fraction \<open>p / q\<close> of the first term; \<open>lommel_acc\<close> runs the
  three-term recurrence \<open>J\<^bsub>m+2\<^esub> = (m+1)/h J\<^bsub>m+1\<^esub> - J\<^sub>m\<close> at \<open>z = 2h\<close> on pairs \<open>(a, b)\<close>
  that stand for \<open>a J\<^sub>0 + b J\<^sub>1\<close>, scaled by powers of \<open>h\<close>, and accumulates the alternating
  sum of every second order; \<open>lommel_boundary\<close> is the truncated series at \<open>x = y\<close>.
\<close>

definition horner_step :: "int \<Rightarrow> int \<Rightarrow> int \<times> int" where
  "horner_step x y = (x - y, x)"

fun bessel_horner :: "int \<Rightarrow> int \<Rightarrow> int \<Rightarrow> nat \<Rightarrow> int \<times> int" where
  "bessel_horner c m j 0 = (1, 1)"
| "bessel_horner c m j (Suc d) =
     (case bessel_horner c m (j + 1) d of
        (p, q) \<Rightarrow> horner_step ((j + 1) * (j + 1 + m) * q) (c * p))"

definition vdot :: "int \<times> int \<Rightarrow> real \<Rightarrow> real \<Rightarrow> real" where
  "vdot v a b = real_of_int (fst v) * a + real_of_int (snd v) * b"

definition vlin :: "int \<Rightarrow> int \<times> int \<Rightarrow> int \<Rightarrow> int \<times> int \<Rightarrow> int \<times> int" where
  "vlin a v b w = (a * fst v + b * fst w, a * snd v + b * snd w)"

fun lommel_acc ::
  "int \<Rightarrow> nat \<Rightarrow> int \<Rightarrow> int \<Rightarrow> int \<times> int \<Rightarrow> int \<times> int \<Rightarrow> int \<times> int \<Rightarrow> int \<times> int" where
  "lommel_acc c 0 sg m v w s = s"
| "lommel_acc c (Suc K) sg m v w s =
     (let v2 = vlin (m + 1) w (- c) v; v3 = vlin (m + 2) v2 (- c) w
      in lommel_acc c K (- sg) (m + 2) v2 v3 (vlin c s sg v))"

definition lommel_boundary :: "nat \<Rightarrow> real \<Rightarrow> real" where
  "lommel_boundary n z = (\<Sum>i<50. (- 1) ^ i * bessel_series (n + 2 * i) z)"

section \<open>Facts about the evaluator and the calculator\<close>


lemma fadd_NaN_right [simp]: "fadd a NaN = NaN"
  by (cases a) simp_all

lemma fmul_NaN_right [simp]: "fmul a NaN = NaN"
  by (cases a) simp_all

lemma max_float_ge: "2 ^ 1023 \<le> max_float"
proof -
  have "(1::real) \<le> 2 - 1 / 2 ^ 52" by simp
  then have "1 * (2::real) ^ 1023 \<le> (2 - 1 / 2 ^ 52) * 2 ^ 1023"
    by (rule mult_right_mono) simp
  then show ?thesis by (simp only: max_float_def mult_1)
qed


lemma max_float_ge_1: "1 \<le> max_float"
proof -
  have "(1::real) \<le> 2 ^ 1023" by (rule one_le_power) simp
  with max_float_ge show ?thesis by linarith
qed


lemma fl_Fin: "\<bar>v\<bar> \<le> max_float \<Longrightarrow> fl v = Fin v"
  by (auto simp: fl_def)



lemma fl_not_NaN: "fl v \<noteq> NaN"
  by (simp add: fl_def)

lemma fl_0 [simp]: "fl 0 = Fin 0"
  using max_float_ge_1 by (simp add: fl_Fin)

lemma fl_1 [simp]: "fl 1 = Fin 1"
  using max_float_ge_1 by (simp add: fl_Fin)

lemma range_check_simps [simp]:
  "range_check (Fin a) = fl a" "range_check PInf = PInf" "range_check NInf = NInf"
  "range_check NaN = NaN"
  by (simp_all add: range_check_def)

lemma power_le_max_float:
  fixes q :: real
  assumes "\<bar>q\<bar> ^ N \<le> max_float" "j \<le> N"
  shows "\<bar>q ^ j\<bar> \<le> max_float"
proof (cases "\<bar>q\<bar> \<le> 1")
  case True
  then have "\<bar>q\<bar> ^ j \<le> 1" by (simp add: power_le_one)
  with max_float_ge_1 show ?thesis by (simp add: power_abs)
next
  case False
  then have "\<bar>q\<bar> ^ j \<le> \<bar>q\<bar> ^ N" using assms(2) by (intro power_increasing) simp_all
  with assms(1) show ?thesis by (simp add: power_abs)
qed

lemma true_div_finite:
  assumes "val y \<noteq> 0" "\<bar>val x / val y\<bar> \<le> max_float"
  shows "true_div x y = Inr (Fin (val x / val y))"
  using assms by (simp add: true_div_def np_div_def fl_Fin)

lemma pow_int_finite:
  assumes "0 \<le> m" "\<bar>a ^ nat m\<bar> \<le> max_float"
  shows "pow_int np (Fin a) m = Inr (Fin (a ^ nat m))"
proof (cases "m = 0")
  case True
  then show ?thesis by (simp add: pow_int_def)
next
  case False
  with assms(1) have "0 < m" by simp
  then show ?thesis using assms(2) by (simp add: pow_int_def fl_Fin)
qed

lemma pow_int_not_ValueError: "pow_int np q m \<noteq> Inl ValueError"
  by (simp add: pow_int_def split: fval.splits)

lemma lommel_term_range:
  assumes "val y \<noteq> 0" "0 \<le> n" "\<bar>val x / val y\<bar> ^ N \<le> max_float" "nat n + 2 * k \<le> N" "0 < N"
  shows "lommel_term jn n x y k =
     Inr (Fin ((- 1) ^ k * (val x / val y) ^ (nat n + 2 * k) * jn (n + 2 * int k) (pi * val x * val y)))"
proof -
  have m: "nat (n + 2 * int k) = nat n + 2 * k" "0 \<le> n + 2 * int k"
    using assms(2) by (simp_all add: nat_add_distrib nat_mult_distrib)
  have "\<bar>(val x / val y) ^ 1\<bar> \<le> max_float"
    using assms(3,5) by (intro power_le_max_float [of _ N]) simp_all
  then have q: "true_div x y = Inr (Fin (val x / val y))"
    using assms(1) by (intro true_div_finite) simp_all
  have "\<bar>(val x / val y) ^ (nat n + 2 * k)\<bar> \<le> max_float"
    using assms(3,4) by (rule power_le_max_float)
  then have "pow_int (is_np x \<or> is_np y) (Fin (val x / val y)) (n + 2 * int k)
      = Inr (Fin ((val x / val y) ^ (nat n + 2 * k)))"
    using pow_int_finite [OF m(2), of "val x / val y"] by (simp add: m(1))
  with q show ?thesis by (simp add: lommel_term_def)
qed

lemma lommel_term_finite:
  assumes "val y \<noteq> 0" "0 \<le> n" "\<bar>val x\<bar> \<le> \<bar>val y\<bar>"
  shows "lommel_term jn n x y k =
     Inr (Fin ((- 1) ^ k * (val x / val y) ^ (nat n + 2 * k) * jn (n + 2 * int k) (pi * val x * val y)))"
proof -
  have "\<bar>val x / val y\<bar> \<le> 1" using assms(1,3) by simp
  then have "\<bar>val x / val y\<bar> ^ Suc (nat n + 2 * k) \<le> 1" by (intro power_le_one) simp_all
  with max_float_ge_1 have "\<bar>val x / val y\<bar> ^ Suc (nat n + 2 * k) \<le> max_float" by linarith
  with assms(1,2) show ?thesis
    by (intro lommel_term_range [where N = "Suc (nat n + 2 * k)"]) simp_all
qed

lemma lommel_loop_finite:
  assumes "\<And>k. k \<in> set ks \<Longrightarrow> lommel_term jn n x y k = Inr (Fin (t k))"
  shows "lommel_loop jn n x y ks (Fin acc) = Inr (Fin (acc + sum_list (map t ks)))"
  using assms
  by (induction ks arbitrary: acc) (auto simp: algebra_simps)

lemma lommel_u_series:
  assumes "val x \<le> val y" "val y \<noteq> 0" "0 \<le> n" "\<bar>val x\<bar> \<le> \<bar>val y\<bar>"
  shows "lommel_u jn n x y = Inr (Fin (lommel_series jn n (val x) (val y)))"
proof -
  let ?t = "\<lambda>k. (- 1) ^ k * (val x / val y) ^ (nat n + 2 * k) * jn (n + 2 * int k) (pi * val x * val y)"
  have "lommel_loop jn n x y [0..<50] (Fin 0) = Inr (Fin (0 + sum_list (map ?t [0..<50])))"
    by (rule lommel_loop_finite) (simp add: lommel_term_finite assms)
  also have "sum_list (map ?t [0..<50]) = sum ?t {..<50}"
    by (simp add: interv_sum_list_conv_sum_set_nat atLeast0LessThan)
  finally show ?thesis using assms by (simp add: lommel_u_def lommel_series_def)
qed


lemma lommel_term_not_ValueError: "lommel_term jn n x y k \<noteq> Inl ValueError"
proof (cases "true_div x y")
  case (Inl e)
  then have "e \<noteq> ValueError" by (auto simp: true_div_def split: if_splits)
  with Inl show ?thesis by (simp add: lommel_term_def)
next
  case (Inr q)
  show ?thesis
    using Inr pow_int_not_ValueError [of "is_np x \<or> is_np y" q "n + 2 * int k"]
    by (cases "pow_int (is_np x \<or> is_np y) q (n + 2 * int k)") (simp_all add: lommel_term_def)
qed

lemma lommel_loop_not_ValueError: "lommel_loop jn n x y ks acc \<noteq> Inl ValueError"
  by (induction ks arbitrary: acc) (auto simp: lommel_term_not_ValueError split: sum.splits)

lemma lommel_u_ValueError_iff: "lommel_u jn n x y = Inl ValueError \<longleftrightarrow> val x > val y"
  by (simp add: lommel_u_def lommel_loop_not_ValueError)

lemma lommel_term_np:
  assumes "is_np x \<or> is_np y"
  shows "lommel_term jn n x y k =
     Inr (fmul (fmul (Fin ((- 1) ^ k))
                  (range_check (np_pow (np_div (val x) (val y)) (n + 2 * int k))))
            (Fin (jn (n + 2 * int k) (pi * val x * val y))))"
  using assms by (simp add: lommel_term_def true_div_def pow_int_def)

lemma lommel_loop_np:
  assumes "is_np x \<or> is_np y"
  shows "\<exists>v. lommel_loop jn n x y ks acc = Inr v"
  using assms by (induction ks arbitrary: acc) (simp_all add: lommel_term_np)

lemma lommel_loop_NaN:
  assumes "is_np x \<or> is_np y"
  shows "lommel_loop jn n x y ks NaN = Inr NaN"
  using assms by (induction ks) (simp_all add: lommel_term_np)

lemma lommel_loop_hits_NaN:
  assumes "is_np x \<or> is_np y" "k \<in> set ks" "lommel_term jn n x y k = Inr NaN"
  shows "lommel_loop jn n x y ks acc = Inr NaN"
  using assms
proof (induction ks arbitrary: acc)
  case Nil
  then show ?case by simp
next
  case (Cons j ks)
  show ?case
  proof (cases "j = k")
    case True
    with Cons.prems show ?thesis by (simp add: lommel_loop_NaN)
  next
    case False
    with Cons.prems have "k \<in> set ks" by simp
    from Cons.IH [OF Cons.prems(1) this Cons.prems(3)] Cons.prems(1)
    show ?thesis by (simp add: lommel_term_np)
  qed
qed

lemma lommel_term_np_zero:
  assumes "is_np x \<or> is_np y" "val x = 0" "val y = 0" "n + 2 * int k \<noteq> 0"
  shows "lommel_term jn n x y k = Inr NaN"
  using assms by (simp add: lommel_term_np np_div_def)

lemma lommel_u_np_zero:
  assumes "is_np x \<or> is_np y" "val x = 0" "val y = 0"
  shows "lommel_u jn n x y = Inr NaN"
proof -
  have "n + 2 * int 0 \<noteq> 0 \<or> n + 2 * int 1 \<noteq> 0" by simp
  then obtain k where k: "k < 50" "n + 2 * int k \<noteq> 0"
    by (metis zero_less_numeral one_less_numeral_iff semiring_norm(76))
  then have "lommel_loop jn n x y [0..<50] (Fin 0) = Inr NaN"
    using assms by (intro lommel_loop_hits_NaN [where k = k] lommel_term_np_zero) simp_all
  then show ?thesis using assms by (simp add: lommel_u_def)
qed

lemma lommel_u_py_zero:
  assumes "\<not> is_np x" "\<not> is_np y" "val x \<le> val y" "val y = 0"
  shows "lommel_u jn n x y = Inl ZeroDivisionError"
proof -
  have "lommel_term jn n x y 0 = Inl ZeroDivisionError"
    using assms by (simp add: lommel_term_def true_div_def)
  moreover have "[0..<50] = 0 # [1..<50]"
    by (simp add: upt_conv_Cons)
  ultimately show ?thesis using assms by (simp add: lommel_u_def)
qed

lemma phase_finite:
  assumes "pi / 2 * ((val r)\<^sup>2 + (val rho)\<^sup>2) \<le> max_float"
  shows "phase r rho = Inr (Fin (pi / 2 * ((val r)\<^sup>2 + (val rho)\<^sup>2)))"
proof -
  define s where "s = (val r)\<^sup>2 + (val rho)\<^sup>2"
  have s0: "0 \<le> s" by (simp add: s_def)
  have "1 * s \<le> pi / 2 * s"
    using pi_ge_two s0 by (intro mult_right_mono) simp_all
  with assms have s: "s \<le> max_float" by (simp add: s_def)
  have "(val r)\<^sup>2 \<le> s" "(val rho)\<^sup>2 \<le> s" by (simp_all add: s_def)
  with s have "(val r)\<^sup>2 \<le> max_float" "(val rho)\<^sup>2 \<le> max_float" by linarith+
  then have "\<bar>val r ^ nat 2\<bar> \<le> max_float" "\<bar>val rho ^ nat 2\<bar> \<le> max_float"
    by simp_all
  then have sq: "pow_int (is_np r) (Fin (val r)) 2 = Inr (Fin ((val r)\<^sup>2))"
    "pow_int (is_np rho) (Fin (val rho)) 2 = Inr (Fin ((val rho)\<^sup>2))"
    using pow_int_finite [of 2 "val r" "is_np r"] pow_int_finite [of 2 "val rho" "is_np rho"]
    by simp_all
  have "fl s = Fin s" using s s0 by (simp add: fl_Fin)
  moreover have "fl (pi / 2 * s) = Fin (pi / 2 * s)"
    using assms s0 by (intro fl_Fin) (simp add: s_def abs_mult)
  ultimately show ?thesis using sq by (simp add: phase_def s_def [symmetric])
qed

lemma phase_np:
  assumes "is_np r" "is_np rho"
  shows "\<exists>a. phase r rho = Inr a"
  using assms by (simp add: phase_def pow_int_def)

lemma phase_not_ValueError: "phase r rho \<noteq> Inl ValueError"
  using pow_int_not_ValueError [of "is_np r" "Fin (val r)" 2]
    pow_int_not_ValueError [of "is_np rho" "Fin (val rho)" 2]
  by (auto simp: phase_def split: sum.splits)






lemma phase_zero:
  assumes "val r = 0" "val rho = 0"
  shows "phase r rho = Inr (Fin 0)"
  using assms phase_finite [of r rho] max_float_ge_1 by simp

lemma intensity_outside:
  assumes "val rho \<le> val r" "val r \<noteq> 0" "\<bar>val rho\<bar> \<le> \<bar>val r\<bar>"
    "pi / 2 * ((val r)\<^sup>2 + (val rho)\<^sup>2) \<le> max_float"
  shows "occultation_intensity jn r rho =
     Inr (Fin (1 + (lommel_series jn 1 (val rho) (val r))\<^sup>2
                 + (lommel_series jn 2 (val rho) (val r))\<^sup>2
                 - 2 * lommel_series jn 1 (val rho) (val r)
                     * sin (pi / 2 * ((val r)\<^sup>2 + (val rho)\<^sup>2))
                 + 2 * lommel_series jn 2 (val rho) (val r)
                     * cos (pi / 2 * ((val r)\<^sup>2 + (val rho)\<^sup>2))))"
  using assms(1-3)
  by (simp add: occultation_intensity_def lommel_u_series phase_finite [OF assms(4)]
      np_sin_def np_cos_def Let_def)

lemma intensity_inside:
  assumes "val r < val rho" "val rho \<noteq> 0" "\<bar>val r\<bar> \<le> \<bar>val rho\<bar>"
  shows "occultation_intensity jn r rho =
     Inr (Fin ((lommel_series jn 0 (val r) (val rho))\<^sup>2
                 + (lommel_series jn 1 (val r) (val rho))\<^sup>2))"
  using assms by (simp add: occultation_intensity_def lommel_u_series)

lemma intensity_np_zero:
  assumes "is_np r \<or> is_np rho" "val r = 0" "val rho = 0"
  shows "occultation_intensity jn r rho = Inr NaN"
  using assms
  by (auto simp add: occultation_intensity_def lommel_u_np_zero phase_zero Let_def)

lemma intensity_py_zero:
  assumes "\<not> is_np r" "\<not> is_np rho" "val r = 0" "val rho = 0"
  shows "occultation_intensity jn r rho = Inl ZeroDivisionError"
  using assms by (simp add: occultation_intensity_def lommel_u_py_zero)

lemma lommel_u_np:
  assumes "is_np x \<or> is_np y" "val x \<le> val y"
  shows "\<exists>v. lommel_u jn n x y = Inr v"
  using assms lommel_loop_np [of x y jn n "[0..<50]" "Fin 0"] by (simp add: lommel_u_def)

lemma intensity_np:
  assumes "is_np r" "is_np rho"
  shows "\<exists>v. occultation_intensity jn r rho = Inr v"
proof (cases "val rho \<le> val r")
  case True
  from assms have np: "is_np rho \<or> is_np r" by blast
  obtain u1 where u1: "lommel_u jn 1 rho r = Inr u1"
    using lommel_u_np [OF np True] by blast
  obtain u2 where u2: "lommel_u jn 2 rho r = Inr u2"
    using lommel_u_np [OF np True] by blast
  obtain a where a: "phase r rho = Inr a"
    using phase_np [OF assms] by blast
  show ?thesis using True u1 u2 a by (simp add: occultation_intensity_def Let_def)
next
  case False
  then have le: "val r \<le> val rho" by simp
  from assms have np: "is_np r \<or> is_np rho" by blast
  obtain u0 where u0: "lommel_u jn 0 r rho = Inr u0"
    using lommel_u_np [OF np le] by blast
  obtain u1 where u1: "lommel_u jn 1 r rho = Inr u1"
    using lommel_u_np [OF np le] by blast
  show ?thesis using False u0 u1 by (simp add: occultation_intensity_def)
qed











section \<open>Facts about the look-up table\<close>

lemma lut_inner_enum:
  assumes "is_np r" "i * n + j0 + length rhos \<le> length lut" "\<forall>rho\<in>set rhos. is_np rho"
  shows "\<exists>lut'. lut_inner jn n i r (enumerate j0 rhos) lut = Inr lut' \<and> length lut' = length lut \<and>
     (\<forall>idx<length lut. lut' ! idx =
        (if i * n + j0 \<le> idx \<and> idx < i * n + j0 + length rhos
         then (val r, val (rhos ! (idx - (i * n + j0))),
               projr (occultation_intensity jn r (rhos ! (idx - (i * n + j0)))))
         else lut ! idx))"
  using assms
proof (induction rhos arbitrary: j0 lut)
  case Nil
  then show ?case by auto
next
  case (Cons rho rhos)
  have np_rest: "\<forall>rho\<in>set rhos. is_np rho" using Cons.prems(3) by simp
  obtain v where v: "occultation_intensity jn r rho = Inr v"
    using intensity_np [of r rho jn] Cons.prems(1,3) by auto
  define lut1 where "lut1 = lut[i * n + j0 := (val r, val rho, v)]"
  have in_range: "i * n + j0 < length lut" using Cons.prems(2) by simp
  have len1: "length lut1 = length lut" by (simp add: lut1_def)
  have "i * n + Suc j0 + length rhos \<le> length lut1"
    using Cons.prems(2) len1 by simp
  from Cons.IH [OF Cons.prems(1) this np_rest]
  obtain lut' where lut':
    "lut_inner jn n i r (enumerate (Suc j0) rhos) lut1 = Inr lut'"
    "length lut' = length lut1"
    "\<forall>idx<length lut1. lut' ! idx =
        (if i * n + Suc j0 \<le> idx \<and> idx < i * n + Suc j0 + length rhos
         then (val r, val (rhos ! (idx - (i * n + Suc j0))),
               projr (occultation_intensity jn r (rhos ! (idx - (i * n + Suc j0)))))
         else lut1 ! idx)"
    by blast
  have run: "lut_inner jn n i r (enumerate j0 (rho # rhos)) lut = Inr lut'"
    using v in_range lut'(1) by (simp add: set_row_def lut1_def)
  have "lut' ! idx =
        (if i * n + j0 \<le> idx \<and> idx < i * n + j0 + length (rho # rhos)
         then (val r, val ((rho # rhos) ! (idx - (i * n + j0))),
               projr (occultation_intensity jn r ((rho # rhos) ! (idx - (i * n + j0)))))
         else lut ! idx)" if idx: "idx < length lut" for idx
  proof -
    consider "idx < i * n + j0" | "idx = i * n + j0" | "i * n + Suc j0 \<le> idx" by linarith
    then show ?thesis
    proof cases
      case 1
      then show ?thesis using lut'(3) idx len1 by (simp add: lut1_def)
    next
      case 2
      then show ?thesis using lut'(3) idx len1 v by (simp add: lut1_def)
    next
      case 3
      then have "idx - (i * n + j0) = Suc (idx - (i * n + Suc j0))" by simp
      then show ?thesis using 3 lut'(3) idx len1 by (simp add: lut1_def)
    qed
  qed
  with run lut'(2) len1 show ?case by auto
qed


lemma lut_outer_enum:
  assumes "\<forall>r\<in>set rs. is_np r" "length rhos = n" "(i0 + length rs) * n \<le> length lut"
    "\<forall>rho\<in>set rhos. is_np rho"
  shows "\<exists>lut'. lut_outer jn n (enumerate i0 rs) (enumerate 0 rhos) lut = Inr lut' \<and>
     length lut' = length lut \<and>
     (\<forall>idx<length lut. lut' ! idx =
        (if i0 * n \<le> idx \<and> idx < (i0 + length rs) * n
         then (val (rs ! (idx div n - i0)), val (rhos ! (idx mod n)),
               projr (occultation_intensity jn (rs ! (idx div n - i0)) (rhos ! (idx mod n))))
         else lut ! idx))"
  using assms
proof (induction rs arbitrary: i0 lut)
  case Nil
  then show ?case by auto
next
  case (Cons r rs)
  have np: "is_np r" using Cons.prems(1) by simp
  have "i0 * n + 0 + length rhos \<le> length lut"
    using Cons.prems(2,3) by (simp add: algebra_simps)
  from lut_inner_enum [OF np this Cons.prems(4), of jn]
  obtain lut1 where lut1:
    "lut_inner jn n i0 r (enumerate 0 rhos) lut = Inr lut1"
    "length lut1 = length lut"
    "\<forall>idx<length lut. lut1 ! idx =
        (if i0 * n + 0 \<le> idx \<and> idx < i0 * n + 0 + length rhos
         then (val r, val (rhos ! (idx - (i0 * n + 0))),
               projr (occultation_intensity jn r (rhos ! (idx - (i0 * n + 0)))))
         else lut ! idx)"
    by blast
  have "\<forall>r\<in>set rs. is_np r" using Cons.prems(1) by simp
  moreover have "(Suc i0 + length rs) * n \<le> length lut1"
    using Cons.prems(3) lut1(2) by simp
  ultimately obtain lut' where lut':
    "lut_outer jn n (enumerate (Suc i0) rs) (enumerate 0 rhos) lut1 = Inr lut'"
    "length lut' = length lut1"
    "\<forall>idx<length lut1. lut' ! idx =
        (if Suc i0 * n \<le> idx \<and> idx < (Suc i0 + length rs) * n
         then (val (rs ! (idx div n - Suc i0)), val (rhos ! (idx mod n)),
               projr (occultation_intensity jn (rs ! (idx div n - Suc i0)) (rhos ! (idx mod n))))
         else lut1 ! idx)"
    using Cons.IH [OF _ Cons.prems(2) _ Cons.prems(4), of "Suc i0" lut1] by blast
  have run: "lut_outer jn n (enumerate i0 (r # rs)) (enumerate 0 rhos) lut = Inr lut'"
    using lut1(1) lut'(1) by simp
  have "lut' ! idx =
        (if i0 * n \<le> idx \<and> idx < (i0 + length (r # rs)) * n
         then (val ((r # rs) ! (idx div n - i0)), val (rhos ! (idx mod n)),
               projr (occultation_intensity jn ((r # rs) ! (idx div n - i0)) (rhos ! (idx mod n))))
         else lut ! idx)" if idx: "idx < length lut" for idx
  proof -
    consider "idx < i0 * n" | "i0 * n \<le> idx" "idx < Suc i0 * n" | "Suc i0 * n \<le> idx"
      by linarith
    then show ?thesis
    proof cases
      case 1
      then have "\<not> Suc i0 * n \<le> idx" by simp
      with 1 show ?thesis using lut'(3) lut1(2,3) idx by simp
    next
      case 2
      then have npos: "0 < n" by (cases n) auto
      from 2 have d: "idx div n = i0"
        by (metis div_nat_eqI mult.commute)
      have m: "idx mod n = idx - i0 * n"
        using d by (metis minus_div_mult_eq_mod)
      have "lut' ! idx = lut1 ! idx" using 2 lut'(3) lut1(2) idx by simp
      also have "\<dots> = (val r, val (rhos ! (idx - i0 * n)),
               projr (occultation_intensity jn r (rhos ! (idx - i0 * n))))"
        using 2 lut1(3) idx Cons.prems(2) by simp
      finally have row: "lut' ! idx = (val r, val (rhos ! (idx - i0 * n)),
               projr (occultation_intensity jn r (rhos ! (idx - i0 * n))))" .
      have "idx < (i0 + length (r # rs)) * n"
        using 2(2) by (simp add: algebra_simps)
      with row 2 d m show ?thesis by simp
    next
      case 3
      show ?thesis
      proof (cases "n = 0")
        case True
        then show ?thesis using lut'(3) lut1(2,3) idx Cons.prems(2) by simp
      next
        case False
        with 3 have "Suc i0 \<le> idx div n"
          by (simp add: less_eq_div_iff_mult_less_eq)
        then have "idx div n - i0 = Suc (idx div n - Suc i0)" by simp
        moreover have "i0 * n \<le> idx" using 3 by simp
        moreover have "lut1 ! idx = lut ! idx"
          using 3 lut1(3) idx Cons.prems(2) by simp
        ultimately show ?thesis using 3 lut'(3) lut1(2) idx by simp
      qed
    qed
  qed
  with run lut'(2) lut1(2) show ?case by auto
qed


lemma linspace_points:
  assumes "0 \<le> num"
  shows "\<exists>pts. linspace a b num = Inr pts \<and> length pts = nat num \<and> (\<forall>p\<in>set pts. is_np p) \<and>
     (\<forall>i<nat num. val (pts ! i) =
        (if num = 1 then a else a + real i * ((b - a) / real_of_int (num - 1))))"
  using assms by (auto simp: linspace_def)

lemma linspace_negative: "num < 0 \<Longrightarrow> linspace a b num = Inl ValueError"
  by (simp add: linspace_def)

lemma build_lut_table:
  assumes "0 \<le> num"
  shows "\<exists>r_points rho_points lut.
     linspace 0 r_max num = Inr r_points \<and> linspace rho_min rho_max num = Inr rho_points \<and>
     build_lut jn num r_max rho_min rho_max = Inr lut \<and> length lut = (nat num)\<^sup>2 \<and>
     (\<forall>i<nat num. \<forall>j<nat num.
        lut ! (i * nat num + j) =
          (val (r_points ! i), val (rho_points ! j),
           projr (occultation_intensity jn (r_points ! i) (rho_points ! j))))"
proof -
  define n where "n = nat num"
  obtain rs where rs: "linspace 0 r_max num = Inr rs" "length rs = n" "\<forall>p\<in>set rs. is_np p"
    using linspace_points [OF assms, of 0 r_max] n_def by blast
  obtain rhos where rhos: "linspace rho_min rho_max num = Inr rhos" "length rhos = n"
    "\<forall>p\<in>set rhos. is_np p"
    using linspace_points [OF assms, of rho_min rho_max] n_def by blast
  define lut0 :: "row list" where "lut0 = replicate (nat (num\<^sup>2)) (0, 0, Fin 0)"
  have len0: "length lut0 = n * n"
    using assms by (simp add: lut0_def n_def power2_eq_square nat_mult_distrib)
  then have "(0 + length rs) * n \<le> length lut0" using rs(2) by simp
  from lut_outer_enum [OF rs(3) rhos(2) this rhos(3), of jn]
  obtain lut where lut:
    "lut_outer jn n (enumerate 0 rs) (enumerate 0 rhos) lut0 = Inr lut"
    "length lut = length lut0"
    "\<forall>idx<length lut0. lut ! idx =
        (if 0 * n \<le> idx \<and> idx < (0 + length rs) * n
         then (val (rs ! (idx div n - 0)), val (rhos ! (idx mod n)),
               projr (occultation_intensity jn (rs ! (idx div n - 0)) (rhos ! (idx mod n))))
         else lut0 ! idx)"
    by blast
  have run: "build_lut jn num r_max rho_min rho_max = Inr lut"
    using rs(1) rhos(1) lut(1) by (simp add: build_lut_def n_def lut0_def)
  have "lut ! (i * n + j) =
          (val (rs ! i), val (rhos ! j), projr (occultation_intensity jn (rs ! i) (rhos ! j)))"
    if ij: "i < n" "j < n" for i j
  proof -
    have "i * n + j < Suc i * n" using ij by simp
    also have "\<dots> \<le> n * n" using ij by (simp add: Suc_leI mult_le_mono1 del: mult_Suc)
    finally have idx: "i * n + j < n * n" .
    moreover have "(i * n + j) div n = i" "(i * n + j) mod n = j" using ij by simp_all
    ultimately show ?thesis using lut(3) len0 rs(2) by simp
  qed
  with run rs(1) rhos(1) lut(2) len0 show ?thesis
    unfolding n_def [symmetric] by (auto simp: power2_eq_square)
qed

section \<open>Facts about the Bessel series\<close>

lemma bessel_term_abs_le:
  "\<bar>bessel_term m z j\<bar> \<le> \<bar>z / 2\<bar> ^ m * (inverse (fact j) * ((z / 2)\<^sup>2) ^ j)"
proof -
  define h where "h = z / 2"
  have pw: "h ^ (2 * j + m) = (h\<^sup>2) ^ j * h ^ m"
    by (simp add: power_add power_mult)
  have "\<bar>bessel_term m z j\<bar> = \<bar>h\<bar> ^ m * ((h\<^sup>2) ^ j / (fact j * fact (j + m)))"
    unfolding bessel_term_def h_def [symmetric] pw
    by (simp add: abs_mult power_abs)
  also have "\<dots> \<le> \<bar>h\<bar> ^ m * ((h\<^sup>2) ^ j / (fact j * 1))"
    by (intro mult_left_mono divide_left_mono mult_left_mono)
       (simp_all add: fact_ge_1)
  finally show ?thesis by (simp add: field_simps h_def)
qed

lemma summable_bessel_term: "summable (bessel_term m z)"
proof (rule summable_comparison_test)
  show "\<exists>N. \<forall>j\<ge>N. norm (bessel_term m z j)
          \<le> \<bar>z / 2\<bar> ^ m * (inverse (fact j) * ((z / 2)\<^sup>2) ^ j)"
    using bessel_term_abs_le by auto
  show "summable (\<lambda>j. \<bar>z / 2\<bar> ^ m * (inverse (fact j) * ((z / 2)\<^sup>2) ^ j))"
    by (intro summable_mult summable_exp)
qed

lemma summable_abs_bessel_term: "summable (\<lambda>j. \<bar>bessel_term m z j\<bar>)"
proof (rule summable_rabs_comparison_test)
  show "\<exists>N. \<forall>j\<ge>N. \<bar>bessel_term m z j\<bar>
          \<le> \<bar>z / 2\<bar> ^ m * (inverse (fact j) * ((z / 2)\<^sup>2) ^ j)"
    using bessel_term_abs_le by auto
  show "summable (\<lambda>j. \<bar>z / 2\<bar> ^ m * (inverse (fact j) * ((z / 2)\<^sup>2) ^ j))"
    by (intro summable_mult summable_exp)
qed

lemma bessel_term_rec_0:
  assumes "z \<noteq> 0"
  shows "2 * real (Suc k) / z * bessel_term (Suc k) z 0 = bessel_term k z 0"
proof -
  define h where "h = z / 2"
  define K where "K = real (Suc k)"
  define F :: real where "F = fact k"
  have h: "h \<noteq> 0" using assms by (simp add: h_def)
  have K: "K \<noteq> 0" by (simp add: K_def)
  have F: "F \<noteq> 0" by (simp add: F_def)
  have c: "2 * real (Suc k) / z = K / h" by (simp add: h_def K_def)
  have t1: "bessel_term (Suc k) z 0 = h * h ^ k / (K * F)"
    by (simp add: bessel_term_def h_def K_def F_def)
  have t2: "bessel_term k z 0 = h ^ k / F"
    by (simp add: bessel_term_def h_def F_def)
  have "K / h * (h * h ^ k / (K * F)) = h ^ k / F"
    using h K F by (simp add: field_simps)
  then show ?thesis unfolding c t1 t2 .
qed

lemma bessel_rec_algebra:
  fixes h s P F G a c K :: real
  assumes "h \<noteq> 0" "a \<noteq> 0" "c \<noteq> 0" "F \<noteq> 0" "G \<noteq> 0" "c = a + K"
  shows "K / h * (- s / (a * F * (c * G)) * (h * P))
           = - s / (a * F * G) * P + s / (F * (c * G)) * P"
proof -
  have e1: "K / h * (- s / (a * F * (c * G)) * (h * P)) = (- (s * P * K)) / (a * F * c * G)"
    using assms(1-5) by (simp add: field_simps)
  have e2: "- s / (a * F * G) * P + s / (F * (c * G)) * P
      = (s * P * a - s * P * c) / (a * F * c * G)"
    using assms(2-5) by (simp add: field_simps)
  have e3: "s * P * a - s * P * c = - (s * P * K)"
    unfolding assms(6) by (simp add: algebra_simps)
  show ?thesis unfolding e1 e2 e3 ..
qed

lemma bessel_term_rec_Suc:
  assumes "z \<noteq> 0"
  shows "2 * real (Suc k) / z * bessel_term (Suc k) z (Suc j)
           = bessel_term k z (Suc j) + bessel_term (Suc (Suc k)) z j"
proof -
  define h where "h = z / 2"
  define P where "P = h ^ (2 * j + k + 2)"
  define F :: real where "F = fact j"
  define G :: real where "G = fact (Suc (j + k))"
  define a where "a = real j + 1"
  define c where "c = real j + real k + 2"
  define s :: real where "s = (- 1) ^ j"
  have h: "h \<noteq> 0" using assms by (simp add: h_def)
  have K: "2 * real (Suc k) / z = (real k + 1) / h" by (simp add: h_def)
  have t1: "bessel_term (Suc k) z (Suc j) = - s / (a * F * (c * G)) * (h * P)"
    by (simp add: bessel_term_def h_def P_def F_def G_def a_def c_def s_def algebra_simps)
  have t2: "bessel_term k z (Suc j) = - s / (a * F * G) * P"
    by (simp add: bessel_term_def h_def P_def F_def G_def a_def c_def s_def algebra_simps)
  have t3: "bessel_term (Suc (Suc k)) z j = s / (F * (c * G)) * P"
    by (simp add: bessel_term_def h_def P_def F_def G_def a_def c_def s_def algebra_simps)
  have "(real k + 1) / h * (- s / (a * F * (c * G)) * (h * P))
           = - s / (a * F * G) * P + s / (F * (c * G)) * P"
    by (rule bessel_rec_algebra [OF h]) (simp_all add: a_def c_def F_def G_def)
  then show ?thesis unfolding K t1 t2 t3 .
qed

lemma bessel_series_rec:
  assumes "z \<noteq> 0"
  shows "bessel_series (Suc (Suc k)) z
           = 2 * real (Suc k) / z * bessel_series (Suc k) z - bessel_series k z"
proof -
  let ?e = "\<lambda>j. 2 * real (Suc k) / z * bessel_term (Suc k) z j"
  have se: "summable ?e" by (intro summable_mult summable_bessel_term)
  have "2 * real (Suc k) / z * bessel_series (Suc k) z = suminf ?e"
    unfolding bessel_series_def by (rule suminf_mult [symmetric]) (rule summable_bessel_term)
  also have "\<dots> = ?e 0 + (\<Sum>j. ?e (Suc j))"
    using suminf_split_head [OF se] by simp
  also have "(\<Sum>j. ?e (Suc j))
      = (\<Sum>j. bessel_term k z (Suc j) + bessel_term (Suc (Suc k)) z j)"
    by (simp only: bessel_term_rec_Suc [OF assms])
  also have "\<dots> = (\<Sum>j. bessel_term k z (Suc j)) + (\<Sum>j. bessel_term (Suc (Suc k)) z j)"
    by (intro suminf_add [symmetric] summable_bessel_term)
       (simp add: summable_Suc_iff summable_bessel_term)
  also have "(\<Sum>j. bessel_term k z (Suc j)) = bessel_series k z - bessel_term k z 0"
    unfolding bessel_series_def by (rule suminf_split_head) (rule summable_bessel_term)
  finally show ?thesis
    using bessel_term_rec_0 [OF assms, of k] by (simp add: bessel_series_def)
qed

lemma bessel_term_Suc:
  "bessel_term m z (Suc j) =
     - (bessel_term m z j * ((z / 2)\<^sup>2 / (real (Suc j) * real (Suc j + m))))"
proof -
  define h where "h = z / 2"
  define F :: real where "F = fact j"
  define G :: real where "G = fact (j + m)"
  define a where "a = real (Suc j)"
  define c where "c = real (Suc j + m)"
  define s :: real where "s = (- 1) ^ j"
  define P where "P = h ^ (2 * j + m)"
  have nz: "F \<noteq> 0" "G \<noteq> 0" "a \<noteq> 0" "c \<noteq> 0"
    by (simp_all add: F_def G_def a_def c_def)
  have t1: "bessel_term m z (Suc j) = - s / (a * F * (c * G)) * (h\<^sup>2 * P)"
    by (simp add: bessel_term_def h_def F_def G_def a_def c_def s_def P_def power2_eq_square
        algebra_simps del: of_nat_Suc of_nat_add)
  have t2: "bessel_term m z j = s / (F * G) * P"
    by (simp add: bessel_term_def h_def F_def G_def s_def P_def)
  have "- s / (a * F * (c * G)) * (h\<^sup>2 * P) = - (s / (F * G) * P * (h\<^sup>2 / (a * c)))"
    using nz by (simp add: field_simps)
  then show ?thesis unfolding t1 t2 h_def [symmetric] a_def c_def .
qed

lemma bessel_term_geometric:
  assumes "2 * (z / 2)\<^sup>2 \<le> real (Suc N) * real (Suc N + m)"
  shows "\<bar>bessel_term m z (i + N)\<bar> \<le> \<bar>bessel_term m z N\<bar> * (1 / 2) ^ i"
proof (induction i)
  case 0
  show ?case by simp
next
  case (Suc i)
  define e where "e = real (Suc (i + N)) * real (Suc (i + N) + m)"
  have "real (Suc N) * real (Suc N + m) \<le> e"
    unfolding e_def by (intro mult_mono) simp_all
  with assms have e: "2 * (z / 2)\<^sup>2 \<le> e" by simp
  have epos: "0 < e" unfolding e_def by simp
  have r: "(z / 2)\<^sup>2 / e \<le> 1 / 2" using e epos by (simp add: field_simps)
  have "\<bar>bessel_term m z (Suc i + N)\<bar> = \<bar>bessel_term m z (i + N)\<bar> * ((z / 2)\<^sup>2 / e)"
    using epos by (simp add: bessel_term_Suc [of m z "i + N"] e_def abs_mult del: of_nat_Suc of_nat_add)
  also have "\<dots> \<le> \<bar>bessel_term m z (i + N)\<bar> * (1 / 2)"
    by (intro mult_left_mono r) simp
  also have "\<dots> \<le> (\<bar>bessel_term m z N\<bar> * (1 / 2) ^ i) * (1 / 2)"
    by (intro mult_right_mono Suc.IH) simp
  finally show ?case by simp
qed

lemma bessel_series_tail:
  assumes "2 * (z / 2)\<^sup>2 \<le> real (Suc N) * real (Suc N + m)"
  shows "\<bar>bessel_series m z - (\<Sum>j<N. bessel_term m z j)\<bar> \<le> 2 * \<bar>bessel_term m z N\<bar>"
proof -
  have shifted: "summable (\<lambda>i. \<bar>bessel_term m z (i + N)\<bar>)"
    using summable_iff_shift [of "\<lambda>j. \<bar>bessel_term m z j\<bar>" N]
      summable_abs_bessel_term [of m z] by blast
  have "bessel_series m z - (\<Sum>j<N. bessel_term m z j) = (\<Sum>i. bessel_term m z (i + N))"
    unfolding bessel_series_def
    by (rule suminf_minus_initial_segment [symmetric]) (rule summable_bessel_term)
  also have "\<bar>\<dots>\<bar> \<le> (\<Sum>i. \<bar>bessel_term m z (i + N)\<bar>)"
    by (rule summable_rabs) (rule shifted)
  also have "\<dots> \<le> (\<Sum>i. \<bar>bessel_term m z N\<bar> * (1 / 2) ^ i)"
  proof (rule suminf_le)
    show "\<bar>bessel_term m z (i + N)\<bar> \<le> \<bar>bessel_term m z N\<bar> * (1 / 2) ^ i" for i
      by (rule bessel_term_geometric [OF assms])
    show "summable (\<lambda>i. \<bar>bessel_term m z (i + N)\<bar>)"
      by (rule shifted)
    show "summable (\<lambda>i. \<bar>bessel_term m z N\<bar> * (1 / 2) ^ i)"
      by (intro summable_mult summable_geometric) simp
  qed
  also have "\<dots> = \<bar>bessel_term m z N\<bar> * (\<Sum>i. (1 / 2) ^ i)"
    by (intro suminf_mult summable_geometric) simp
  also have "(\<Sum>i. (1 / 2 :: real) ^ i) = 2"
    using suminf_geometric [of "1 / 2 :: real"] by simp
  finally show ?thesis by simp
qed

lemma vdot_vlin: "vdot (vlin a v b w) x y = real_of_int a * vdot v x y + real_of_int b * vdot w x y"
  by (simp add: vdot_def vlin_def algebra_simps)

lemma bessel_horner_correct:
  assumes "real_of_int c = (z / 2)\<^sup>2"
  shows "case bessel_horner c (int m) (int j) d of
           (p, q) \<Rightarrow> 0 < q \<and>
             bessel_term m z j * (real_of_int p / real_of_int q) = (\<Sum>i = j..j + d. bessel_term m z i) \<and>
             \<bar>bessel_term m z (j + d)\<bar> * real_of_int q = \<bar>bessel_term m z j\<bar> * real_of_int c ^ d"
proof (induction d arbitrary: j)
  case 0
  show ?case by simp
next
  case (Suc d)
  obtain p q where pq: "bessel_horner c (int m) (int (Suc j)) d = (p, q)"
    by (cases "bessel_horner c (int m) (int (Suc j)) d")
  from Suc.IH [of "Suc j"] pq
  have q: "0 < q"
    and ih: "bessel_term m z (Suc j) * (real_of_int p / real_of_int q)
               = (\<Sum>i = Suc j..Suc j + d. bessel_term m z i)"
    and ihq: "\<bar>bessel_term m z (Suc j + d)\<bar> * real_of_int q
               = \<bar>bessel_term m z (Suc j)\<bar> * real_of_int c ^ d"
    by simp_all
  define e :: int where "e = (int j + 1) * (int j + 1 + int m)"
  have epos: "0 < e" by (simp add: e_def)
  have er: "real_of_int e = real (Suc j) * real (Suc j + m)"
    by (simp add: e_def algebra_simps)
  have step: "bessel_horner c (int m) (int j) (Suc d) = (e * q - c * p, e * q)"
    using pq by (simp add: e_def add.commute horner_step_def)
  have "bessel_term m z j * (real_of_int (e * q - c * p) / real_of_int (e * q))
      = bessel_term m z j
          - bessel_term m z j * ((z / 2)\<^sup>2 / real_of_int e) * (real_of_int p / real_of_int q)"
    using q epos assms by (simp add: field_simps)
  also have "\<dots> = bessel_term m z j + bessel_term m z (Suc j) * (real_of_int p / real_of_int q)"
    unfolding er bessel_term_Suc [of m z j] by (simp del: of_nat_Suc of_nat_add)
  also have "\<dots> = (\<Sum>i = j..j + Suc d. bessel_term m z i)"
    unfolding ih by (simp add: sum.atLeast_Suc_atMost)
  finally have sum: "bessel_term m z j * (real_of_int (e * q - c * p) / real_of_int (e * q))
      = (\<Sum>i = j..j + Suc d. bessel_term m z i)" .
  have "\<bar>bessel_term m z (Suc j)\<bar> * real_of_int e = \<bar>bessel_term m z j\<bar> * real_of_int c"
    using epos unfolding er bessel_term_Suc [of m z j] assms
    by (simp add: abs_mult del: of_nat_Suc of_nat_add)
  then have "\<bar>bessel_term m z (Suc j)\<bar> * real_of_int e * real_of_int c ^ d
      = \<bar>bessel_term m z j\<bar> * real_of_int c ^ Suc d"
    by simp
  with ihq have "\<bar>bessel_term m z (j + Suc d)\<bar> * real_of_int (e * q)
      = \<bar>bessel_term m z j\<bar> * real_of_int c ^ Suc d"
    by (simp add: mult_ac)
  with sum step q epos show ?case by simp
qed

lemma bessel_series_step:
  assumes "z = 2 * real_of_int h" "h \<noteq> 0"
    and v: "vdot v a b = real_of_int h ^ m * bessel_series m z"
    and w: "vdot w a b = real_of_int h ^ Suc m * bessel_series (Suc m) z"
  shows "vdot (vlin (int m + 1) w (- (h * h)) v) a b
           = real_of_int h ^ Suc (Suc m) * bessel_series (Suc (Suc m)) z"
proof -
  have h: "real_of_int h \<noteq> 0" using assms(2) by simp
  have z: "z \<noteq> 0" using assms(1) h by simp
  have "2 * real (Suc m) / z = real (Suc m) / real_of_int h"
    using h by (simp add: assms(1) field_simps)
  then have rec: "bessel_series (Suc (Suc m)) z
      = real (Suc m) / real_of_int h * bessel_series (Suc m) z - bessel_series m z"
    using bessel_series_rec [OF z, of m] by simp
  define H where "H = real_of_int h"
  define A where "A = bessel_series m z"
  define B where "B = bessel_series (Suc m) z"
  define M where "M = real (Suc m)"
  have H: "H \<noteq> 0" using h by (simp add: H_def)
  have "M * (H * H ^ m * B) - H * H * (H ^ m * A) = H * H * H ^ m * (M / H * B - A)"
    using H by (simp add: field_simps)
  then show ?thesis
    unfolding vdot_vlin v w rec
    by (simp add: H_def A_def B_def M_def mult.assoc add.commute)
qed

lemma lommel_acc_correct:
  assumes "z = 2 * real_of_int h" "h \<noteq> 0"
    and "vdot v a b = real_of_int h ^ m * bessel_series m z"
    and "vdot w a b = real_of_int h ^ Suc m * bessel_series (Suc m) z"
  shows "(real_of_int h)\<^sup>2 * vdot (lommel_acc (h * h) K sg (int m) v w s) a b
           = real_of_int h ^ (2 * K + 2) * vdot s a b
             + real_of_int h ^ (m + 2 * K) * real_of_int sg
                 * (\<Sum>i<K. (- 1) ^ i * bessel_series (m + 2 * i) z)"
  using assms(3,4)
proof (induction K arbitrary: sg m v w s)
  case 0
  show ?case by (simp add: power2_eq_square)
next
  case (Suc K)
  define v2 where "v2 = vlin (int m + 1) w (- (h * h)) v"
  define v3 where "v3 = vlin (int m + 2) v2 (- (h * h)) w"
  have v2: "vdot v2 a b = real_of_int h ^ Suc (Suc m) * bessel_series (Suc (Suc m)) z"
    unfolding v2_def by (rule bessel_series_step [OF assms(1,2) Suc.prems])
  have v3: "vdot v3 a b = real_of_int h ^ Suc (Suc (Suc m)) * bessel_series (Suc (Suc (Suc m))) z"
    using bessel_series_step [OF assms(1,2) Suc.prems(2) v2] by (simp add: v3_def add.commute)
  have run: "lommel_acc (h * h) (Suc K) sg (int m) v w s
      = lommel_acc (h * h) K (- sg) (int (Suc (Suc m))) v2 v3 (vlin (h * h) s sg v)"
    by (simp add: Let_def v2_def v3_def add.commute)
  have ih: "(real_of_int h)\<^sup>2 * vdot (lommel_acc (h * h) K (- sg) (int (Suc (Suc m))) v2 v3
                (vlin (h * h) s sg v)) a b
           = real_of_int h ^ (2 * K + 2) * vdot (vlin (h * h) s sg v) a b
             + real_of_int h ^ (Suc (Suc m) + 2 * K) * real_of_int (- sg)
                 * (\<Sum>i<K. (- 1) ^ i * bessel_series (Suc (Suc m) + 2 * i) z)"
    by (rule Suc.IH [OF v2 v3])
  have shift: "(\<Sum>i<Suc K. (- 1) ^ i * bessel_series (m + 2 * i) z)
      = bessel_series m z - (\<Sum>i<K. (- 1) ^ i * bessel_series (Suc (Suc m) + 2 * i) z)"
    by (simp add: sum.lessThan_Suc_shift sum_negf del: sum.lessThan_Suc)
  show ?case
    unfolding run ih shift vdot_vlin Suc.prems(1)
    by (simp add: algebra_simps power2_eq_square power_add)
qed

lemma bessel_enclosure:
  assumes c: "real_of_int c = (z / 2)\<^sup>2"
    and tail: "2 * (z / 2)\<^sup>2 \<le> real (Suc (Suc d)) * real (Suc (Suc d) + m)"
    and run: "bessel_horner c (int m) 0 d = (p, q)"
  shows "0 < q"
    and "\<bar>bessel_series m z - bessel_term m z 0 * (real_of_int p / real_of_int q)\<bar>
           \<le> 2 * (\<bar>bessel_term m z 0\<bar> * real_of_int c ^ Suc d
                  / (real_of_int q * (real (Suc d) * real (Suc d + m))))"
proof -
  from bessel_horner_correct [OF c, of m 0 d] run
  have q: "0 < q"
    and sum: "bessel_term m z 0 * (real_of_int p / real_of_int q) = (\<Sum>i = 0..d. bessel_term m z i)"
    and last: "\<bar>bessel_term m z d\<bar> * real_of_int q = \<bar>bessel_term m z 0\<bar> * real_of_int c ^ d"
    by simp_all
  show "0 < q" by (rule q)
  define e where "e = real (Suc d) * real (Suc d + m)"
  have e: "0 < e" by (simp add: e_def)
  have "\<bar>bessel_term m z (Suc d)\<bar> = \<bar>bessel_term m z d\<bar> * (real_of_int c / e)"
    unfolding bessel_term_Suc [of m z d] c e_def
    by (simp add: abs_mult del: of_nat_Suc of_nat_add)
  also have "\<bar>bessel_term m z d\<bar> = \<bar>bessel_term m z 0\<bar> * real_of_int c ^ d / real_of_int q"
    using last q by (simp add: field_simps)
  finally have next_term: "\<bar>bessel_term m z (Suc d)\<bar>
      = \<bar>bessel_term m z 0\<bar> * real_of_int c ^ Suc d / (real_of_int q * e)"
    by simp
  have "{0..d} = {..<Suc d}" by auto
  with sum have "bessel_term m z 0 * (real_of_int p / real_of_int q) = (\<Sum>i<Suc d. bessel_term m z i)"
    by simp
  with bessel_series_tail [OF tail] next_term
  show "\<bar>bessel_series m z - bessel_term m z 0 * (real_of_int p / real_of_int q)\<bar>
           \<le> 2 * (\<bar>bessel_term m z 0\<bar> * real_of_int c ^ Suc d
                  / (real_of_int q * (real (Suc d) * real (Suc d + m))))"
    by (simp add: e_def)
qed

lemma bessel_bounds:
  fixes c t L U D E e p q M :: int and m d N :: nat
  assumes c: "real_of_int c = (z / 2)\<^sup>2"
    and tail: "2 * (z / 2)\<^sup>2 \<le> real (Suc N) * real (Suc N + m)"
    and run: "bessel_horner c M 0 d = (p, q)" and M: "M = int m" and N: "N = Suc d"
    and t0: "bessel_term m z 0 = real_of_int t" and t: "0 \<le> t"
    and lo: "L * q \<le> D * (t * p)" and hi: "D * (t * p) \<le> U * q"
    and tl: "t * c ^ N * E \<le> q * e" and e: "e = int N * int (N + m)"
    and D: "0 < D" and E: "0 < E"
  shows "real_of_int L / real_of_int D - 2 / real_of_int E \<le> bessel_series m z"
    and "bessel_series m z \<le> real_of_int U / real_of_int D + 2 / real_of_int E"
proof -
  define S where "S = real_of_int t * (real_of_int p / real_of_int q)"
  define T where "T = real_of_int t * real_of_int c ^ N / (real_of_int q * real_of_int e)"
  note enc = bessel_enclosure [OF c tail [unfolded N] run [unfolded M]]
  have q: "0 < real_of_int q" using enc(1) by simp
  have rD: "0 < real_of_int D" and rE: "0 < real_of_int E" using D E by simp_all
  have re: "0 < real_of_int e" unfolding e N by simp
  have "\<bar>bessel_series m z - S\<bar> \<le> 2 * T"
    using enc(2) t unfolding S_def T_def t0 e N by simp
  moreover have "T \<le> 1 / real_of_int E"
  proof -
    have "real_of_int (t * c ^ N * E) \<le> real_of_int (q * e)"
      using tl by (rule of_int_le_iff [THEN iffD2])
    then have "real_of_int t * real_of_int c ^ N * real_of_int E \<le> real_of_int q * real_of_int e"
      by simp
    then show ?thesis unfolding T_def using q re rE by (simp add: field_simps)
  qed
  moreover have "real_of_int L / real_of_int D \<le> S"
  proof -
    have "real_of_int (L * q) \<le> real_of_int (D * (t * p))"
      using lo by (rule of_int_le_iff [THEN iffD2])
    then have "real_of_int L * real_of_int q \<le> real_of_int D * (real_of_int t * real_of_int p)"
      by simp
    then show ?thesis unfolding S_def using q rD by (simp add: field_simps)
  qed
  moreover have "S \<le> real_of_int U / real_of_int D"
  proof -
    have "real_of_int (D * (t * p)) \<le> real_of_int (U * q)"
      using hi by (rule of_int_le_iff [THEN iffD2])
    then have "real_of_int D * (real_of_int t * real_of_int p) \<le> real_of_int U * real_of_int q"
      by simp
    then show ?thesis unfolding S_def using q rD by (simp add: field_simps)
  qed
  ultimately show "real_of_int L / real_of_int D - 2 / real_of_int E \<le> bessel_series m z"
    and "bessel_series m z \<le> real_of_int U / real_of_int D + 2 / real_of_int E"
    by (simp_all add: abs_le_iff)
qed

lemma bessel_0_102_bounds:
  assumes "case bessel_horner 2601 0 0 149 of (p, q) \<Rightarrow>
    61309 * q \<le> 1000000 * (1 * p) \<and> 1000000 * (1 * p) \<le> 61310 * q
    \<and> 1 * 2601 ^ 150 * 1000000000 \<le> q * 22500"
  shows "61308 / 10 ^ 6 \<le> bessel_series 0 102" and "bessel_series 0 102 \<le> 61311 / 10 ^ 6"
proof -
  obtain p q where run: "bessel_horner 2601 0 0 149 = (p, q)"
    by (cases "bessel_horner 2601 0 0 149")
  from assms have f: "61309 * q \<le> 1000000 * (1 * p) \<and> 1000000 * (1 * p) \<le> 61310 * q
    \<and> 1 * 2601 ^ 150 * 1000000000 \<le> q * 22500"
    by (simp only: run prod.case)
  have c: "real_of_int 2601 = (102 / 2 :: real)\<^sup>2" by (simp add: power2_eq_square)
  have tail: "2 * (102 / 2 :: real)\<^sup>2 \<le> real (Suc 150) * real (Suc 150 + 0)"
    by (simp add: power2_eq_square)
  have b: "real_of_int 61309 / real_of_int 1000000 - 2 / real_of_int 1000000000 \<le> bessel_series 0 102"
    "bessel_series 0 102 \<le> real_of_int 61310 / real_of_int 1000000 + 2 / real_of_int 1000000000"
    by (rule bessel_bounds [OF c tail run _ _ _ _ conjunct1 [OF f] conjunct1 [OF conjunct2 [OF f]]
          conjunct2 [OF conjunct2 [OF f]]]; simp add: bessel_term_def)+
  from b show "61308 / 10 ^ 6 \<le> bessel_series 0 102" "bessel_series 0 102 \<le> 61311 / 10 ^ 6"
    by simp_all
qed

lemma bessel_1_102_bounds:
  assumes "case bessel_horner 2601 1 0 149 of (p, q) \<Rightarrow>
    50124 * q \<le> 1000000 * (51 * p) \<and> 1000000 * (51 * p) \<le> 50125 * q
    \<and> 51 * 2601 ^ 150 * 1000000000 \<le> q * 22650"
  shows "50123 / 10 ^ 6 \<le> bessel_series 1 102" and "bessel_series 1 102 \<le> 50126 / 10 ^ 6"
proof -
  obtain p q where run: "bessel_horner 2601 1 0 149 = (p, q)"
    by (cases "bessel_horner 2601 1 0 149")
  from assms have f: "50124 * q \<le> 1000000 * (51 * p) \<and> 1000000 * (51 * p) \<le> 50125 * q
    \<and> 51 * 2601 ^ 150 * 1000000000 \<le> q * 22650"
    by (simp only: run prod.case)
  have c: "real_of_int 2601 = (102 / 2 :: real)\<^sup>2" by (simp add: power2_eq_square)
  have tail: "2 * (102 / 2 :: real)\<^sup>2 \<le> real (Suc 150) * real (Suc 150 + 1)"
    by (simp add: power2_eq_square)
  have b: "real_of_int 50124 / real_of_int 1000000 - 2 / real_of_int 1000000000 \<le> bessel_series 1 102"
    "bessel_series 1 102 \<le> real_of_int 50125 / real_of_int 1000000 + 2 / real_of_int 1000000000"
    by (rule bessel_bounds [OF c tail run _ _ _ _ conjunct1 [OF f] conjunct1 [OF conjunct2 [OF f]]
          conjunct2 [OF conjunct2 [OF f]]]; simp add: bessel_term_def)+
  from b show "50123 / 10 ^ 6 \<le> bessel_series 1 102" "bessel_series 1 102 \<le> 50126 / 10 ^ 6"
    by simp_all
qed

lemma scaled_bounds:
  fixes a x D :: int and J :: real
  assumes D: "0 < D"
  shows "0 \<le> a \<Longrightarrow> J \<le> real_of_int x / real_of_int D
           \<Longrightarrow> real_of_int a * J \<le> real_of_int (a * x) / real_of_int D"
    and "a \<le> 0 \<Longrightarrow> real_of_int x / real_of_int D \<le> J
           \<Longrightarrow> real_of_int a * J \<le> real_of_int (a * x) / real_of_int D"
    and "0 \<le> a \<Longrightarrow> real_of_int x / real_of_int D \<le> J
           \<Longrightarrow> real_of_int (a * x) / real_of_int D \<le> real_of_int a * J"
    and "a \<le> 0 \<Longrightarrow> J \<le> real_of_int x / real_of_int D
           \<Longrightarrow> real_of_int (a * x) / real_of_int D \<le> real_of_int a * J"
proof -
  have e: "real_of_int (a * x) / real_of_int D = real_of_int a * (real_of_int x / real_of_int D)"
    by simp
  show "0 \<le> a \<Longrightarrow> J \<le> real_of_int x / real_of_int D
           \<Longrightarrow> real_of_int a * J \<le> real_of_int (a * x) / real_of_int D"
    unfolding e by (rule mult_left_mono) simp_all
  show "a \<le> 0 \<Longrightarrow> real_of_int x / real_of_int D \<le> J
           \<Longrightarrow> real_of_int a * J \<le> real_of_int (a * x) / real_of_int D"
    unfolding e by (rule mult_left_mono_neg) simp_all
  show "0 \<le> a \<Longrightarrow> real_of_int x / real_of_int D \<le> J
           \<Longrightarrow> real_of_int (a * x) / real_of_int D \<le> real_of_int a * J"
    unfolding e by (rule mult_left_mono) simp_all
  show "a \<le> 0 \<Longrightarrow> J \<le> real_of_int x / real_of_int D
           \<Longrightarrow> real_of_int (a * x) / real_of_int D \<le> real_of_int a * J"
    unfolding e by (rule mult_left_mono_neg) simp_all
qed

lemma vdot_upper:
  fixes a b x y B P D :: int and J0 J1 U :: real
  assumes rel: "vdot (a, b) J0 J1 = real_of_int P * U"
    and P: "0 < P" and D: "0 < D"
    and a: "real_of_int a * J0 \<le> real_of_int (a * x) / real_of_int D"
    and b: "real_of_int b * J1 \<le> real_of_int (b * y) / real_of_int D"
    and le: "a * x + b * y \<le> B * P"
  shows "U \<le> real_of_int B / real_of_int D"
proof -
  have rP: "0 < real_of_int P" and rD: "0 < real_of_int D" using P D by simp_all
  have "real_of_int P * U \<le> real_of_int (a * x) / real_of_int D + real_of_int (b * y) / real_of_int D"
    using a b unfolding rel [symmetric] vdot_def by simp
  also have "\<dots> = real_of_int (a * x + b * y) / real_of_int D"
    by (simp add: add_divide_distrib)
  also have "\<dots> \<le> real_of_int (B * P) / real_of_int D"
  proof (rule divide_right_mono)
    show "real_of_int (a * x + b * y) \<le> real_of_int (B * P)"
      using le by (rule of_int_le_iff [THEN iffD2])
    show "0 \<le> real_of_int D" using rD by simp
  qed
  finally have "real_of_int P * U \<le> real_of_int P * (real_of_int B / real_of_int D)"
    by (simp add: mult.commute)
  then show ?thesis using rP by (rule mult_left_le_imp_le)
qed

lemma vdot_lower:
  fixes a b x y B P D :: int and J0 J1 U :: real
  assumes rel: "vdot (a, b) J0 J1 = real_of_int P * U"
    and P: "0 < P" and D: "0 < D"
    and a: "real_of_int (a * x) / real_of_int D \<le> real_of_int a * J0"
    and b: "real_of_int (b * y) / real_of_int D \<le> real_of_int b * J1"
    and le: "- (B * P) \<le> a * x + b * y"
  shows "- (real_of_int B / real_of_int D) \<le> U"
proof -
  have rP: "0 < real_of_int P" and rD: "0 < real_of_int D" using P D by simp_all
  have "real_of_int (- (B * P)) / real_of_int D \<le> real_of_int (a * x + b * y) / real_of_int D"
  proof (rule divide_right_mono)
    show "real_of_int (- (B * P)) \<le> real_of_int (a * x + b * y)"
      using le by (rule of_int_le_iff [THEN iffD2])
    show "0 \<le> real_of_int D" using rD by simp
  qed
  also have "\<dots> = real_of_int (a * x) / real_of_int D + real_of_int (b * y) / real_of_int D"
    by (simp add: add_divide_distrib)
  also have "\<dots> \<le> real_of_int P * U"
    using a b unfolding rel [symmetric] vdot_def by simp
  finally have "real_of_int P * (- (real_of_int B / real_of_int D)) \<le> real_of_int P * U"
    by (simp add: mult.commute)
  then show ?thesis using rP by (rule mult_left_le_imp_le)
qed

lemma lommel_acc_total:
  assumes "z = 2 * real_of_int h" "0 < h"
    and "vdot v a b = real_of_int h ^ m * bessel_series m z"
    and "vdot w a b = real_of_int h ^ Suc m * bessel_series (Suc m) z"
  shows "vdot (lommel_acc (h * h) (Suc K) 1 (int m) v w (0, 0)) a b
           = real_of_int (h ^ (m + 2 * K)) * (\<Sum>i<Suc K. (- 1) ^ i * bessel_series (m + 2 * i) z)"
proof -
  have h: "h \<noteq> 0" "real_of_int h \<noteq> 0" using assms(2) by simp_all
  have "(real_of_int h)\<^sup>2 * vdot (lommel_acc (h * h) (Suc K) 1 (int m) v w (0, 0)) a b
      = real_of_int h ^ (m + 2 * Suc K) * (\<Sum>i<Suc K. (- 1) ^ i * bessel_series (m + 2 * i) z)"
    using lommel_acc_correct [OF assms(1) h(1) assms(3,4), of "Suc K" 1 "(0, 0)"]
    by (simp add: vdot_def)
  also have "real_of_int h ^ (m + 2 * Suc K) = (real_of_int h)\<^sup>2 * real_of_int (h ^ (m + 2 * K))"
    by (simp add: power_add power2_eq_square)
  finally show ?thesis using h(2) by simp
qed

lemma gap_algebra:
  fixes U0 U1 U2 s c :: real
  assumes "\<bar>U0\<bar> \<le> 1 / 50" "\<bar>U1\<bar> \<le> 11 / 25" "\<bar>U2\<bar> \<le> 9 / 100" "s\<^sup>2 + c\<^sup>2 = 1"
  shows "U0\<^sup>2 + U1\<^sup>2 + 9 / 100 < 1 + U1\<^sup>2 + U2\<^sup>2 - 2 * U1 * s + 2 * U2 * c"
proof -
  define w where "w = U1 * s - U2 * c"
  have "U0\<^sup>2 \<le> (1 / 50)\<^sup>2" using assms(1) by (simp add: abs_le_square_iff [symmetric])
  then have u0: "U0\<^sup>2 \<le> 1 / 2500" by (simp add: power2_eq_square)
  have "U1\<^sup>2 \<le> (11 / 25)\<^sup>2" using assms(2) by (simp add: abs_le_square_iff [symmetric])
  then have u1: "U1\<^sup>2 \<le> 121 / 625" by (simp add: power2_eq_square)
  have "U2\<^sup>2 \<le> (9 / 100)\<^sup>2" using assms(3) by (simp add: abs_le_square_iff [symmetric])
  then have u2: "U2\<^sup>2 \<le> 81 / 10000" by (simp add: power2_eq_square)
  have "w\<^sup>2 + (U1 * c + U2 * s)\<^sup>2 = (U1\<^sup>2 + U2\<^sup>2) * (s\<^sup>2 + c\<^sup>2)"
    unfolding w_def by (simp add: power2_eq_square algebra_simps)
  then have "w\<^sup>2 + (U1 * c + U2 * s)\<^sup>2 = U1\<^sup>2 + U2\<^sup>2"
    using assms(4) by simp
  moreover have "0 \<le> (U1 * c + U2 * s)\<^sup>2" by simp
  ultimately have "w\<^sup>2 \<le> U1\<^sup>2 + U2\<^sup>2" by linarith
  with u1 u2 have w2: "w\<^sup>2 < (9 / 20)\<^sup>2" by (simp add: power2_eq_square)
  have "w < 9 / 20"
  proof (rule ccontr)
    assume "\<not> w < 9 / 20"
    then have "9 / 20 \<le> w" by simp
    then have "(9 / 20)\<^sup>2 \<le> w\<^sup>2" by (intro power_mono) simp_all
    with w2 show False by simp
  qed
  moreover have "0 \<le> U2\<^sup>2" by simp
  ultimately have "U0\<^sup>2 + 9 / 100 < 1 + U2\<^sup>2 - 2 * w" using u0 by linarith
  then show ?thesis unfolding w_def by (simp add: algebra_simps)
qed

lemma summable_bessel_coeff:
  "summable (\<lambda>j. (- 1) ^ j / (fact j * fact (j + m)) * (y::real) ^ j)"
proof (rule summable_comparison_test)
  show "\<exists>N. \<forall>j\<ge>N. norm ((- 1) ^ j / (fact j * fact (j + m)) * y ^ j)
          \<le> inverse (fact j) * \<bar>y\<bar> ^ j"
  proof (intro exI allI impI)
    fix j :: nat
    have "norm ((- 1) ^ j / (fact j * fact (j + m)) * y ^ j)
        = \<bar>y\<bar> ^ j / (fact j * fact (j + m))"
      by (simp add: abs_mult power_abs)
    also have "\<dots> \<le> \<bar>y\<bar> ^ j / (fact j * 1)"
      by (intro divide_left_mono mult_left_mono) (simp_all add: fact_ge_1)
    finally show "norm ((- 1) ^ j / (fact j * fact (j + m)) * y ^ j)
          \<le> inverse (fact j) * \<bar>y\<bar> ^ j"
      by (simp add: field_simps)
  qed
  show "summable (\<lambda>j. inverse (fact j) * \<bar>y\<bar> ^ j)"
    by (rule summable_exp)
qed

lemma isCont_bessel_series: "isCont (bessel_series m) z"
proof -
  define F where "F = (\<lambda>w::real. \<Sum>j. (- 1) ^ j / (fact j * fact (j + m)) * w ^ j)"
  have F: "isCont F w" for w
    unfolding F_def by (rule isCont_powser_converges_everywhere) (rule summable_bessel_coeff)
  have eq: "bessel_series m = (\<lambda>z. (z / 2) ^ m * F ((z / 2)\<^sup>2))"
  proof
    fix z :: real
    have "bessel_term m z j = (z / 2) ^ m * ((- 1) ^ j / (fact j * fact (j + m)) * ((z / 2)\<^sup>2) ^ j)"
      for j
      by (simp add: bessel_term_def power_add power_mult)
    then have "bessel_series m z
        = (\<Sum>j. (z / 2) ^ m * ((- 1) ^ j / (fact j * fact (j + m)) * ((z / 2)\<^sup>2) ^ j))"
      by (simp add: bessel_series_def)
    also have "\<dots> = (z / 2) ^ m * F ((z / 2)\<^sup>2)"
      unfolding F_def by (rule suminf_mult) (rule summable_bessel_coeff)
    finally show "bessel_series m z = (z / 2) ^ m * F ((z / 2)\<^sup>2)" .
  qed
  have "isCont (\<lambda>z. F ((z / 2)\<^sup>2)) z"
    by (rule isCont_o2 [where g = F]) (auto intro!: continuous_intros F)
  then show ?thesis
    unfolding eq by (intro continuous_intros) simp_all
qed

lemma isCont_bessel_j: "isCont f a \<Longrightarrow> isCont (\<lambda>t. bessel_j m (f t)) a"
proof (rule isCont_o2 [where g = "bessel_j m"])
  show "isCont (bessel_j m) (f a)"
  proof (cases "0 \<le> m")
    case True
    then have "bessel_j m = bessel_series (nat m)" by (auto simp: bessel_j_def)
    then show ?thesis by (simp add: isCont_bessel_series)
  next
    case False
    then have "bessel_j m = (\<lambda>z. (- 1) ^ nat (- m) * bessel_series (nat (- m)) z)"
      by (auto simp: bessel_j_def)
    then show ?thesis by (auto intro!: continuous_intros isCont_bessel_series)
  qed
qed

lemma isCont_lommel_series:
  assumes "isCont f a" "isCont g a" "g a \<noteq> 0"
  shows "isCont (\<lambda>t. lommel_series bessel_j n (f t) (g t)) a"
  unfolding lommel_series_def
  using assms by (intro continuous_intros isCont_bessel_j) auto

lemma lommel_series_boundary:
  assumes "\<rho> \<noteq> 0" "pi * \<rho> * \<rho> = z"
  shows "lommel_series bessel_j (int n) \<rho> \<rho> = (\<Sum>i<50. (- 1) ^ i * bessel_series (n + 2 * i) z)"
proof -
  have "bessel_j (int n + 2 * int k) z = bessel_series (n + 2 * k) z" for k
    by (simp add: bessel_j_def nat_add_distrib nat_mult_distrib)
  then show ?thesis
    using assms by (simp add: lommel_series_def)
qed

lemma lommel_boundary_rel:
  assumes "vdot v (bessel_series 0 102) (bessel_series 1 102) = real_of_int 51 ^ m * bessel_series m 102"
    and "vdot w (bessel_series 0 102) (bessel_series 1 102)
           = real_of_int 51 ^ Suc m * bessel_series (Suc m) 102"
  shows "vdot (lommel_acc 2601 50 1 (int m) v w (0, 0)) (bessel_series 0 102) (bessel_series 1 102)
           = real_of_int (51 ^ (m + 98)) * lommel_boundary m 102"
proof -
  have e: "(51::int) * 51 = 2601" "Suc 49 = 50" "m + 2 * 49 = m + 98" by simp_all
  have z: "(102::real) = 2 * real_of_int 51" by simp
  have h: "(0::int) < 51" by simp
  show ?thesis
    using lommel_acc_total [OF z h assms, of 49]
    unfolding e lommel_boundary_def .
qed

lemma boundary_bounds:
  assumes h0: "case bessel_horner 2601 0 0 149 of (p, q) \<Rightarrow>
      61309 * q \<le> 1000000 * (1 * p) \<and> 1000000 * (1 * p) \<le> 61310 * q
      \<and> 1 * 2601 ^ 150 * 1000000000 \<le> q * 22500"
    and h1: "case bessel_horner 2601 1 0 149 of (p, q) \<Rightarrow>
      50124 * q \<le> 1000000 * (51 * p) \<and> 1000000 * (51 * p) \<le> 50125 * q
      \<and> 51 * 2601 ^ 150 * 1000000000 \<le> q * 22650"
    and a0: "case lommel_acc 2601 50 1 0 (1, 0) (0, 51) (0, 0) of (a, b) \<Rightarrow>
      0 \<le> a \<and> b \<le> 0 \<and> a * 61311 + b * 50123 \<le> 20000 * 51 ^ (0 + 98)
      \<and> - (20000 * 51 ^ (0 + 98)) \<le> a * 61308 + b * 50126"
    and a1: "case lommel_acc 2601 50 1 1 (0, 51) (- 2601, 51) (0, 0) of (a, b) \<Rightarrow>
      0 \<le> a \<and> 0 \<le> b \<and> a * 61311 + b * 50126 \<le> 440000 * 51 ^ (1 + 98)
      \<and> - (440000 * 51 ^ (1 + 98)) \<le> a * 61308 + b * 50123"
    and a2: "case lommel_acc 2601 50 1 2 (- 2601, 51) (- 5202, - 132549) (0, 0) of (a, b) \<Rightarrow>
      a \<le> 0 \<and> 0 \<le> b \<and> a * 61308 + b * 50126 \<le> 90000 * 51 ^ (2 + 98)
      \<and> - (90000 * 51 ^ (2 + 98)) \<le> a * 61311 + b * 50123"
  shows "\<bar>lommel_boundary 0 102\<bar> \<le> 1 / 50"
    and "\<bar>lommel_boundary 1 102\<bar> \<le> 11 / 25"
    and "\<bar>lommel_boundary 2 102\<bar> \<le> 9 / 100"
proof -
  define J0 where "J0 = bessel_series 0 102"
  define J1 where "J1 = bessel_series 1 102"
  have D: "(0::int) < 1000000" by simp
  have J0l: "real_of_int 61308 / real_of_int 1000000 \<le> J0"
    and J0u: "J0 \<le> real_of_int 61311 / real_of_int 1000000"
    using bessel_0_102_bounds [OF h0] by (simp_all add: J0_def)
  have J1l: "real_of_int 50123 / real_of_int 1000000 \<le> J1"
    and J1u: "J1 \<le> real_of_int 50126 / real_of_int 1000000"
    using bessel_1_102_bounds [OF h1] by (simp_all add: J1_def)
  have P: "(0::int) < 51 ^ k" for k by (rule zero_less_power) simp
  have v0: "vdot (1, 0) J0 J1 = real_of_int 51 ^ 0 * bessel_series 0 102"
    by (simp add: vdot_def J0_def)
  have v1: "vdot (0, 51) J0 J1 = real_of_int 51 ^ Suc 0 * bessel_series (Suc 0) 102"
    by (simp add: vdot_def J1_def)
  have z: "(102::real) = 2 * real_of_int 51" by simp
  have v2: "vdot (- 2601, 51) J0 J1 = real_of_int 51 ^ Suc (Suc 0) * bessel_series (Suc (Suc 0)) 102"
    using bessel_series_step [OF z _ v0 v1] by (simp add: vlin_def)
  have v3: "vdot (- 5202, - 132549) J0 J1
      = real_of_int 51 ^ Suc (Suc (Suc 0)) * bessel_series (Suc (Suc (Suc 0))) 102"
    using bessel_series_step [OF z _ v1 v2] by (simp add: vlin_def)
  have i: "int 0 = 0" "int 1 = 1" "int 2 = 2" by simp_all
  have n: "Suc 0 = 1" "Suc 1 = 2" by simp_all
  note r0 = lommel_boundary_rel [OF v0 [unfolded J0_def J1_def] v1 [unfolded J0_def J1_def],
      unfolded i, folded J0_def J1_def]
  note r1 = lommel_boundary_rel [OF v1 [unfolded J0_def J1_def] v2 [unfolded J0_def J1_def],
      unfolded n i, folded J0_def J1_def]
  note r2 = lommel_boundary_rel [OF v2 [unfolded J0_def J1_def] v3 [unfolded J0_def J1_def],
      unfolded n i, folded J0_def J1_def]
  show "\<bar>lommel_boundary 0 102\<bar> \<le> 1 / 50"
  proof -
    obtain a b where ab: "lommel_acc 2601 50 1 0 (1, 0) (0, 51) (0, 0) = (a, b)"
      by (cases "lommel_acc 2601 50 1 0 (1, 0) (0, 51) (0, 0)")
    from a0 have f: "0 \<le> a \<and> b \<le> 0 \<and> a * 61311 + b * 50123 \<le> 20000 * 51 ^ (0 + 98)
      \<and> - (20000 * 51 ^ (0 + 98)) \<le> a * 61308 + b * 50126"
      by (simp only: ab prod.case)
    then have s: "0 \<le> a" "b \<le> 0" and up: "a * 61311 + b * 50123 \<le> 20000 * 51 ^ (0 + 98)"
      and lo: "- (20000 * 51 ^ (0 + 98)) \<le> a * 61308 + b * 50126"
      by blast+
    note rel = r0 [unfolded ab]
    have "lommel_boundary 0 102 \<le> real_of_int 20000 / real_of_int 1000000"
      by (rule vdot_upper [OF rel P D scaled_bounds(1) [OF D s(1) J0u]
            scaled_bounds(2) [OF D s(2) J1l] up])
    moreover have "- (real_of_int 20000 / real_of_int 1000000) \<le> lommel_boundary 0 102"
      by (rule vdot_lower [OF rel P D scaled_bounds(3) [OF D s(1) J0l]
            scaled_bounds(4) [OF D s(2) J1u] lo])
    ultimately show ?thesis by (simp add: abs_le_iff)
  qed
  show "\<bar>lommel_boundary 1 102\<bar> \<le> 11 / 25"
  proof -
    obtain a b where ab: "lommel_acc 2601 50 1 1 (0, 51) (- 2601, 51) (0, 0) = (a, b)"
      by (cases "lommel_acc 2601 50 1 1 (0, 51) (- 2601, 51) (0, 0)")
    from a1 have f: "0 \<le> a \<and> 0 \<le> b \<and> a * 61311 + b * 50126 \<le> 440000 * 51 ^ (1 + 98)
      \<and> - (440000 * 51 ^ (1 + 98)) \<le> a * 61308 + b * 50123"
      by (simp only: ab prod.case)
    then have s: "0 \<le> a" "0 \<le> b" and up: "a * 61311 + b * 50126 \<le> 440000 * 51 ^ (1 + 98)"
      and lo: "- (440000 * 51 ^ (1 + 98)) \<le> a * 61308 + b * 50123"
      by blast+
    note rel = r1 [unfolded ab]
    have "lommel_boundary 1 102 \<le> real_of_int 440000 / real_of_int 1000000"
      by (rule vdot_upper [OF rel P D scaled_bounds(1) [OF D s(1) J0u]
            scaled_bounds(1) [OF D s(2) J1u] up])
    moreover have "- (real_of_int 440000 / real_of_int 1000000) \<le> lommel_boundary 1 102"
      by (rule vdot_lower [OF rel P D scaled_bounds(3) [OF D s(1) J0l]
            scaled_bounds(3) [OF D s(2) J1l] lo])
    ultimately show ?thesis by (simp add: abs_le_iff)
  qed
  show "\<bar>lommel_boundary 2 102\<bar> \<le> 9 / 100"
  proof -
    obtain a b where ab: "lommel_acc 2601 50 1 2 (- 2601, 51) (- 5202, - 132549) (0, 0) = (a, b)"
      by (cases "lommel_acc 2601 50 1 2 (- 2601, 51) (- 5202, - 132549) (0, 0)")
    from a2 have f: "a \<le> 0 \<and> 0 \<le> b \<and> a * 61308 + b * 50126 \<le> 90000 * 51 ^ (2 + 98)
      \<and> - (90000 * 51 ^ (2 + 98)) \<le> a * 61311 + b * 50123"
      by (simp only: ab prod.case)
    then have s: "a \<le> 0" "0 \<le> b" and up: "a * 61308 + b * 50126 \<le> 90000 * 51 ^ (2 + 98)"
      and lo: "- (90000 * 51 ^ (2 + 98)) \<le> a * 61311 + b * 50123"
      by blast+
    note rel = r2 [unfolded ab]
    have "lommel_boundary 2 102 \<le> real_of_int 90000 / real_of_int 1000000"
      by (rule vdot_upper [OF rel P D scaled_bounds(2) [OF D s(1) J0l]
            scaled_bounds(1) [OF D s(2) J1u] up])
    moreover have "- (real_of_int 90000 / real_of_int 1000000) \<le> lommel_boundary 2 102"
      by (rule vdot_lower [OF rel P D scaled_bounds(4) [OF D s(1) J0u]
            scaled_bounds(3) [OF D s(2) J1l] lo])
    ultimately show ?thesis by (simp add: abs_le_iff)
  qed
qed

lemma bessel_horner_0_102:
  "case bessel_horner 2601 0 0 149 of (p, q) \<Rightarrow>
      61309 * q \<le> 1000000 * (1 * p) \<and> 1000000 * (1 * p) \<le> 61310 * q
      \<and> 1 * 2601 ^ 150 * 1000000000 \<le> q * 22500"
  by code_simp

lemma bessel_horner_1_102:
  "case bessel_horner 2601 1 0 149 of (p, q) \<Rightarrow>
      50124 * q \<le> 1000000 * (51 * p) \<and> 1000000 * (51 * p) \<le> 50125 * q
      \<and> 51 * 2601 ^ 150 * 1000000000 \<le> q * 22650"
  by code_simp

lemma lommel_acc_0_102:
  "case lommel_acc 2601 50 1 0 (1, 0) (0, 51) (0, 0) of (a, b) \<Rightarrow>
      0 \<le> a \<and> b \<le> 0 \<and> a * 61311 + b * 50123 \<le> 20000 * 51 ^ (0 + 98)
      \<and> - (20000 * 51 ^ (0 + 98)) \<le> a * 61308 + b * 50126"
  by code_simp

lemma lommel_acc_1_102:
  "case lommel_acc 2601 50 1 1 (0, 51) (- 2601, 51) (0, 0) of (a, b) \<Rightarrow>
      0 \<le> a \<and> 0 \<le> b \<and> a * 61311 + b * 50126 \<le> 440000 * 51 ^ (1 + 98)
      \<and> - (440000 * 51 ^ (1 + 98)) \<le> a * 61308 + b * 50123"
  by code_simp

lemma lommel_acc_2_102:
  "case lommel_acc 2601 50 1 2 (- 2601, 51) (- 5202, - 132549) (0, 0) of (a, b) \<Rightarrow>
      a \<le> 0 \<and> 0 \<le> b \<and> a * 61308 + b * 50126 \<le> 90000 * 51 ^ (2 + 98)
      \<and> - (90000 * 51 ^ (2 + 98)) \<le> a * 61311 + b * 50123"
  by code_simp

lemma boundary_bounds_102:
  "\<bar>lommel_boundary 0 102\<bar> \<le> 1 / 50"
  "\<bar>lommel_boundary 1 102\<bar> \<le> 11 / 25"
  "\<bar>lommel_boundary 2 102\<bar> \<le> 9 / 100"
  by (rule boundary_bounds [OF bessel_horner_0_102 bessel_horner_1_102
        lommel_acc_0_102 lommel_acc_1_102 lommel_acc_2_102])+

lemma boundary_jump:
  fixes \<rho> :: real
  assumes rho: "0 < \<rho>" and z: "pi * \<rho> * \<rho> = 102"
    and U: "\<bar>lommel_boundary 0 102\<bar> \<le> 1 / 50" "\<bar>lommel_boundary 1 102\<bar> \<le> 11 / 25"
      "\<bar>lommel_boundary 2 102\<bar> \<le> 9 / 100"
  shows "\<forall>\<^sub>F \<epsilon> in at_right 0. \<exists>a b.
      occultation_intensity bessel_j (NpNum (\<rho> - \<epsilon>)) (NpNum \<rho>) = Inr (Fin a) \<and>
      occultation_intensity bessel_j (NpNum (\<rho> + \<epsilon>)) (NpNum \<rho>) = Inr (Fin b) \<and>
      a + 9 / 100 < b"
proof -
  define inner where "inner = (\<lambda>\<epsilon>. (lommel_series bessel_j 0 (\<rho> - \<epsilon>) \<rho>)\<^sup>2
                         + (lommel_series bessel_j 1 (\<rho> - \<epsilon>) \<rho>)\<^sup>2)"
  define outer where "outer = (\<lambda>\<epsilon>. 1 + (lommel_series bessel_j 1 \<rho> (\<rho> + \<epsilon>))\<^sup>2
                 + (lommel_series bessel_j 2 \<rho> (\<rho> + \<epsilon>))\<^sup>2
                 - 2 * lommel_series bessel_j 1 \<rho> (\<rho> + \<epsilon>)
                     * sin (pi / 2 * ((\<rho> + \<epsilon>)\<^sup>2 + \<rho>\<^sup>2))
                 + 2 * lommel_series bessel_j 2 \<rho> (\<rho> + \<epsilon>)
                     * cos (pi / 2 * ((\<rho> + \<epsilon>)\<^sup>2 + \<rho>\<^sup>2)))"
  have rho0: "\<rho> \<noteq> 0" using rho by simp
  have b0: "lommel_series bessel_j 0 \<rho> \<rho> = lommel_boundary 0 102"
    using lommel_series_boundary [OF rho0 z, of 0] by (simp add: lommel_boundary_def)
  have b1: "lommel_series bessel_j 1 \<rho> \<rho> = lommel_boundary 1 102"
    using lommel_series_boundary [OF rho0 z, of 1] by (simp add: lommel_boundary_def)
  have b2: "lommel_series bessel_j 2 \<rho> \<rho> = lommel_boundary 2 102"
    using lommel_series_boundary [OF rho0 z, of 2] by (simp add: lommel_boundary_def)
  have arg: "pi * \<rho>\<^sup>2 = 102"
    using z by (simp add: power2_eq_square algebra_simps)
  have "inner 0 + 9 / 100 < outer 0"
    unfolding inner_def outer_def using gap_algebra [OF U sin_cos_squared_add [of 102]]
    by (simp add: b0 b1 b2 arg)
  then have gap: "9 / 100 < outer 0 - inner 0" by simp
  have "isCont (\<lambda>\<epsilon>. outer \<epsilon> - inner \<epsilon>) 0"
    unfolding inner_def outer_def
    using rho0 by (intro continuous_intros isCont_lommel_series) simp_all
  then have "((\<lambda>\<epsilon>. outer \<epsilon> - inner \<epsilon>) \<longlongrightarrow> outer 0 - inner 0) (at_right 0)"
    using continuous_at_imp_continuous_at_within continuous_within by blast
  from order_tendstoD(1) [OF this gap]
  have ev_gap: "\<forall>\<^sub>F \<epsilon> in at_right 0. 9 / 100 < outer \<epsilon> - inner \<epsilon>" .
  have ev_small: "\<forall>\<^sub>F \<epsilon> in at_right 0. \<epsilon> \<in> {0<..<\<rho>}"
    by (rule eventually_at_right_real [OF rho])
  from ev_gap ev_small show ?thesis
  proof eventually_elim
    case (elim \<epsilon>)
    then have e: "0 < \<epsilon>" "\<epsilon> < \<rho>" by simp_all
    have "occultation_intensity bessel_j (NpNum (\<rho> - \<epsilon>)) (NpNum \<rho>) = Inr (Fin (inner \<epsilon>))"
      unfolding inner_def using e rho0 intensity_inside [of "NpNum (\<rho> - \<epsilon>)" "NpNum \<rho>" bessel_j]
      by simp
    moreover have "occultation_intensity bessel_j (NpNum (\<rho> + \<epsilon>)) (NpNum \<rho>) = Inr (Fin (outer \<epsilon>))"
    proof -
      have "(\<rho> + \<epsilon>)\<^sup>2 \<le> (2 * \<rho>)\<^sup>2" using e rho by (intro power_mono) simp_all
      then have "(\<rho> + \<epsilon>)\<^sup>2 + \<rho>\<^sup>2 \<le> 5 * \<rho>\<^sup>2" by (simp add: power_mult_distrib)
      then have "pi * ((\<rho> + \<epsilon>)\<^sup>2 + \<rho>\<^sup>2) \<le> pi * (5 * \<rho>\<^sup>2)"
        by (intro mult_left_mono) simp_all
      also have "\<dots> = 510" using arg by simp
      finally have "pi / 2 * ((\<rho> + \<epsilon>)\<^sup>2 + \<rho>\<^sup>2) \<le> 255" by simp
      moreover have "(255::real) \<le> 2 ^ 1023" by simp
      ultimately have "pi / 2 * ((val (NpNum (\<rho> + \<epsilon>)))\<^sup>2 + (val (NpNum \<rho>))\<^sup>2) \<le> max_float"
        using max_float_ge by simp
      moreover have "val (NpNum \<rho>) \<le> val (NpNum (\<rho> + \<epsilon>))" "val (NpNum (\<rho> + \<epsilon>)) \<noteq> 0"
        "\<bar>val (NpNum \<rho>)\<bar> \<le> \<bar>val (NpNum (\<rho> + \<epsilon>))\<bar>"
        using e rho by simp_all
      ultimately show ?thesis
        unfolding outer_def
        using intensity_outside [of "NpNum \<rho>" "NpNum (\<rho> + \<epsilon>)" bessel_j] by simp
    qed
    moreover have "inner \<epsilon> + 9 / 100 < outer \<epsilon>" using elim(1) by simp
    ultimately show ?case by blast
  qed
qed

lemma sqrt_102_pi: "0 < sqrt (102 / pi)" "pi * sqrt (102 / pi) * sqrt (102 / pi) = 102"
proof -
  show "0 < sqrt (102 / pi)" by simp
  have "sqrt (102 / pi) * sqrt (102 / pi) = 102 / pi" by simp
  then have "pi * (sqrt (102 / pi) * sqrt (102 / pi)) = 102" by simp
  then show "pi * sqrt (102 / pi) * sqrt (102 / pi) = 102" by (simp only: mult.assoc)
qed

section \<open>The claims about the evaluator and the calculator\<close>

subsection \<open>C1\<close>




subsection \<open>C2\<close>




subsection \<open>C3\<close>




subsection \<open>C4\<close>

text \<open>
  Claim C4. For \<open>r \<ge> 0\<close> and \<open>rho > 0\<close> the calculator never raises the evaluator's
  \<^verbatim>\<open>ValueError\<close>: the outside branch calls \<open>lommel_u\<close> on \<open>(rho, r)\<close> with
  \<open>rho \<le> r\<close>, the inside branch on \<open>(r, rho)\<close> with \<open>r < rho\<close>, and none of these calls
  raises it.
\<close>

theorem occultation_intensity_no_domain_error:
  assumes "0 \<le> val r" "0 < val rho"
  shows "occultation_intensity jn r rho \<noteq> Inl ValueError
       \<and> (val rho \<le> val r \<longrightarrow>
            lommel_u jn 1 rho r \<noteq> Inl ValueError \<and> lommel_u jn 2 rho r \<noteq> Inl ValueError)
       \<and> (val r < val rho \<longrightarrow>
            lommel_u jn 0 r rho \<noteq> Inl ValueError \<and> lommel_u jn 1 r rho \<noteq> Inl ValueError)"
proof (intro conjI impI)
  show "occultation_intensity jn r rho \<noteq> Inl ValueError"
  proof (cases "val rho \<le> val r")
    case True
    then have "lommel_u jn 1 rho r \<noteq> Inl ValueError" "lommel_u jn 2 rho r \<noteq> Inl ValueError"
      by (simp_all add: lommel_u_ValueError_iff)
    then show ?thesis using True phase_not_ValueError [of r rho]
      by (auto simp: occultation_intensity_def Let_def split: sum.splits)
  next
    case False
    then have "lommel_u jn 0 r rho \<noteq> Inl ValueError" "lommel_u jn 1 r rho \<noteq> Inl ValueError"
      by (simp_all add: lommel_u_ValueError_iff)
    then show ?thesis using False
      by (auto simp: occultation_intensity_def split: sum.splits)
  qed
qed (simp_all add: lommel_u_ValueError_iff)

theorem occultation_intensity_no_domain_error_witness:
  "occultation_intensity bessel_j (NpNum 3) (NpNum 2) \<noteq> Inl ValueError
   \<and> lommel_u bessel_j 1 (NpNum 2) (NpNum 3) \<noteq> Inl ValueError
   \<and> lommel_u bessel_j 2 (NpNum 2) (NpNum 3) \<noteq> Inl ValueError
   \<and> occultation_intensity bessel_j (PyNum 1) (PyNum 2) \<noteq> Inl ValueError
   \<and> lommel_u bessel_j 0 (PyNum 1) (PyNum 2) \<noteq> Inl ValueError
   \<and> lommel_u bessel_j 1 (PyNum 1) (PyNum 2) \<noteq> Inl ValueError"
  using occultation_intensity_no_domain_error [of "NpNum 3" "NpNum 2" bessel_j]
    occultation_intensity_no_domain_error [of "PyNum 1" "PyNum 2" bessel_j]
  by simp

subsection \<open>C5\<close>




subsection \<open>C6\<close>

text \<open>
  Claim C6 says that the intensity is continuous across the shadow boundary: for every
  \<open>rho > 0\<close> the inside value at \<open>rho - \<epsilon>\<close> and the outside value at \<open>rho + \<epsilon>\<close> agree
  within \<open>10\<^sup>-\<^sup>3\<close> for small \<open>\<epsilon>\<close>. The code does not do this: at \<open>rho = sqrt(102/\<pi>)\<close>
  (about 5.698, where \<open>\<pi> rho\<^sup>2 = 102\<close>) and for every small enough \<open>\<epsilon> > 0\<close>, the outside
  value exceeds the inside value by more than 0.09. Fifty terms do not suffice at
  \<open>x/y \<rightarrow> 1\<close>, where the factor \<open>(x/y)\<^bsup>n+2k\<^esup>\<close> no longer decays and the orders up to 100
  are not beyond the argument 102.
\<close>

theorem intensity_jump_at_boundary:
  "\<forall>\<^sub>F \<epsilon> in at_right 0. \<exists>a b.
      occultation_intensity bessel_j (NpNum (sqrt (102 / pi) - \<epsilon>)) (NpNum (sqrt (102 / pi)))
        = Inr (Fin a) \<and>
      occultation_intensity bessel_j (NpNum (sqrt (102 / pi) + \<epsilon>)) (NpNum (sqrt (102 / pi)))
        = Inr (Fin b) \<and>
      a + 9 / 100 < b"
proof -
  have rho: "0 < sqrt (102 / pi)"
    and z: "pi * sqrt (102 / pi) * sqrt (102 / pi) = 102"
    by (rule sqrt_102_pi)+
  have U: "\<bar>lommel_boundary 0 102\<bar> \<le> 1 / 50" "\<bar>lommel_boundary 1 102\<bar> \<le> 11 / 25"
    "\<bar>lommel_boundary 2 102\<bar> \<le> 9 / 100"
    by (rule boundary_bounds_102)+
  show ?thesis
    by (rule boundary_jump [OF rho z U])
qed

subsection \<open>C9\<close>



subsection \<open>C10\<close>

text \<open>
  Claim C10, amended. \<open>lommel_u(n, 0, 0)\<close> passes the guard \<open>x > y\<close>, raises no
  \<^verbatim>\<open>ValueError\<close> and returns no real value, for every order \<open>n\<close>: if an argument is a
  numpy double the quotient \<open>0/0\<close> is NaN and the call returns NaN; if both are built-in
  Python numbers the division raises \<^verbatim>\<open>ZeroDivisionError\<close>. The same outcome reaches
  \<open>occultation_intensity(0, 0)\<close>.
\<close>

theorem lommel_u_zero_zero:
  assumes "val x = 0" "val y = 0"
  shows "lommel_u jn n x y = (if is_np x \<or> is_np y then Inr NaN else Inl ZeroDivisionError)
       \<and> occultation_intensity jn x y =
           (if is_np x \<or> is_np y then Inr NaN else Inl ZeroDivisionError)"
  using assms
  by (simp add: lommel_u_np_zero lommel_u_py_zero intensity_np_zero intensity_py_zero)

theorem lommel_u_zero_zero_witness:
  "lommel_u bessel_j 0 (NpNum 0) (NpNum 0) = Inr NaN
   \<and> occultation_intensity bessel_j (NpNum 0) (NpNum 0) = Inr NaN
   \<and> lommel_u bessel_j 2 (PyNum 0) (PyNum 0) = Inl ZeroDivisionError
   \<and> occultation_intensity bessel_j (PyNum 0) (PyNum 0) = Inl ZeroDivisionError"
  using lommel_u_zero_zero [of "NpNum 0" "NpNum 0" bessel_j 0]
    lommel_u_zero_zero [of "PyNum 0" "PyNum 0" bessel_j 2]
  by simp

text \<open>
  The claim as written fails for built-in Python numbers: \<^verbatim>\<open>0 / 0\<close> raises, and no
  NaN is returned.
\<close>

theorem lommel_u_zero_zero_py_counterexample:
  "lommel_u bessel_j 1 (PyNum 0) (PyNum 0) = Inl ZeroDivisionError
   \<and> lommel_u bessel_j 1 (PyNum 0) (PyNum 0) \<noteq> Inr NaN"
  by (simp add: lommel_u_py_zero)

section \<open>The claims about the look-up table\<close>

subsection \<open>C7\<close>

text \<open>
  Claim C7. For a point count \<open>num_points \<ge> 0\<close> the build produces exactly
  \<open>num_points\<^sup>2\<close> rows over the full product of the two grids of \<^verbatim>\<open>np.linspace\<close>
  (\<open>r\<close> evenly spaced from 0 to \<open>r_max\<close>, \<open>rho\<close> evenly spaced from \<open>rho_min\<close> to
  \<open>rho_max\<close>), in row-major order by the \<open>r\<close> index, then the \<open>rho\<close> index: the row at
  \<open>i * num_points + j\<close> is \<open>(r_points[i], rho_points[j],
  occultation_intensity(r_points[i], rho_points[j]))\<close>. The source fixes 400 points,
  \<open>r\<close> in \<open>[0, 20]\<close> and \<open>rho\<close> in \<open>[0.01, 20]\<close>.
\<close>

theorem build_lut_row_major:
  assumes "0 \<le> num_points"
  shows "\<exists>r_points rho_points lut.
     linspace 0 r_max num_points = Inr r_points \<and>
     linspace rho_min rho_max num_points = Inr rho_points \<and>
     length r_points = nat num_points \<and> length rho_points = nat num_points \<and>
     (\<forall>i<nat num_points.
        val (r_points ! i) =
          (if num_points = 1 then 0 else real i * (r_max / real_of_int (num_points - 1))) \<and>
        val (rho_points ! i) =
          (if num_points = 1 then rho_min
           else rho_min + real i * ((rho_max - rho_min) / real_of_int (num_points - 1)))) \<and>
     build_lut jn num_points r_max rho_min rho_max = Inr lut \<and>
     length lut = (nat num_points)\<^sup>2 \<and>
     (\<forall>i<nat num_points. \<forall>j<nat num_points.
        \<exists>v. occultation_intensity jn (r_points ! i) (rho_points ! j) = Inr v \<and>
            lut ! (i * nat num_points + j) = (val (r_points ! i), val (rho_points ! j), v))"
proof -
  obtain r_points rho_points lut where t:
    "linspace 0 r_max num_points = Inr r_points"
    "linspace rho_min rho_max num_points = Inr rho_points"
    "build_lut jn num_points r_max rho_min rho_max = Inr lut"
    "length lut = (nat num_points)\<^sup>2"
    "\<forall>i<nat num_points. \<forall>j<nat num_points.
        lut ! (i * nat num_points + j) =
          (val (r_points ! i), val (rho_points ! j),
           projr (occultation_intensity jn (r_points ! i) (rho_points ! j)))"
    using build_lut_table [OF assms, of r_max rho_min rho_max jn] by blast
  have r: "length r_points = nat num_points" "\<forall>p\<in>set r_points. is_np p"
    "\<forall>i<nat num_points. val (r_points ! i) =
        (if num_points = 1 then 0 else real i * (r_max / real_of_int (num_points - 1)))"
    using linspace_points [OF assms, of 0 r_max] t(1) by auto
  have rho: "length rho_points = nat num_points"
    "\<forall>i<nat num_points. val (rho_points ! i) =
        (if num_points = 1 then rho_min
         else rho_min + real i * ((rho_max - rho_min) / real_of_int (num_points - 1)))"
    and rho_np: "\<forall>p\<in>set rho_points. is_np p"
    using linspace_points [OF assms, of rho_min rho_max] t(2) by auto
  have "\<exists>v. occultation_intensity jn (r_points ! i) (rho_points ! j) = Inr v \<and>
            lut ! (i * nat num_points + j) = (val (r_points ! i), val (rho_points ! j), v)"
    if "i < nat num_points" "j < nat num_points" for i j
  proof -
    have "is_np (r_points ! i)" using r(1,2) that(1) by simp
    moreover have "is_np (rho_points ! j)" using rho(1) rho_np that(2) by simp
    ultimately obtain v where "occultation_intensity jn (r_points ! i) (rho_points ! j) = Inr v"
      using intensity_np [of "r_points ! i" "rho_points ! j" jn] by blast
    then show ?thesis using t(5) that by simp
  qed
  with t(1-4) r(1,3) rho show ?thesis by blast
qed

theorem build_lut_row_major_witness:
  "\<exists>r_points rho_points lut v.
     linspace 0 20 400 = Inr r_points \<and> linspace (1 / 100) 20 400 = Inr rho_points \<and>
     main_lut bessel_j = Inr lut \<and> length lut = 160000 \<and>
     occultation_intensity bessel_j (r_points ! 399) (rho_points ! 0) = Inr v \<and>
     lut ! 159600 = (20, 1 / 100, v)"
proof -
  have h: "(0::int) \<le> 400" by simp
  obtain r_points rho_points lut where t:
    "linspace 0 20 400 = Inr r_points"
    "linspace (1 / 100) 20 400 = Inr rho_points"
    "\<forall>i<nat 400.
        val (r_points ! i) =
          (if (400::int) = 1 then 0 else real i * (20 / real_of_int (400 - 1))) \<and>
        val (rho_points ! i) =
          (if (400::int) = 1 then 1 / 100
           else 1 / 100 + real i * ((20 - 1 / 100) / real_of_int (400 - 1)))"
    "build_lut bessel_j 400 20 (1 / 100) 20 = Inr lut"
    "length lut = (nat 400)\<^sup>2"
    "\<forall>i<nat 400. \<forall>j<nat 400.
        \<exists>v. occultation_intensity bessel_j (r_points ! i) (rho_points ! j) = Inr v \<and>
            lut ! (i * nat 400 + j) = (val (r_points ! i), val (rho_points ! j), v)"
    using build_lut_row_major [OF h, of 20 "1 / 100" 20 bessel_j] by blast
  have i: "(399::nat) < nat 400" and j: "(0::nat) < nat 400" by simp_all
  from t(6) [rule_format, OF i j]
  obtain v where v: "occultation_intensity bessel_j (r_points ! 399) (rho_points ! 0) = Inr v"
    "lut ! (399 * nat 400 + 0) = (val (r_points ! 399), val (rho_points ! 0), v)"
    by blast
  from t(3) [rule_format, OF i] have r: "val (r_points ! 399) = 20" by simp
  from t(3) [rule_format, OF j] have rho: "val (rho_points ! 0) = 1 / 100" by simp
  from v(2) r rho have "lut ! 159600 = (20, 1 / 100, v)" by simp
  moreover from t(5) have "length lut = 160000" by simp
  ultimately show ?thesis using t(1,2,4) v(1) by (auto simp: main_lut_def)
qed

subsection \<open>C8\<close>

text \<open>
  Claim C8, amended. The build validates nothing itself. A negative point count makes it
  fail before any sample is computed, with the \<^verbatim>\<open>ValueError\<close> of \<^verbatim>\<open>np.linspace\<close>.
  Every other grid, a zero point count, a non-positive lower end of \<open>rho\<close> or upper ends
  below the lower ones included, yields a table of \<open>num_points\<^sup>2\<close> rows and no error.
\<close>

theorem build_lut_fails_iff_negative:
  "(num_points < 0 \<longrightarrow> build_lut jn num_points r_max rho_min rho_max = Inl ValueError)
   \<and> (0 \<le> num_points \<longrightarrow>
        (\<exists>lut. build_lut jn num_points r_max rho_min rho_max = Inr lut \<and>
               length lut = (nat num_points)\<^sup>2))"
proof (intro conjI impI)
  assume "num_points < 0"
  then show "build_lut jn num_points r_max rho_min rho_max = Inl ValueError"
    by (simp add: build_lut_def linspace_negative)
next
  assume "0 \<le> num_points"
  from build_lut_table [OF this, of r_max rho_min rho_max jn]
  show "\<exists>lut. build_lut jn num_points r_max rho_min rho_max = Inr lut \<and>
               length lut = (nat num_points)\<^sup>2"
    by blast
qed

theorem build_lut_fails_iff_negative_witness:
  "build_lut bessel_j (- 1) 20 (1 / 100) 20 = Inl ValueError
   \<and> (\<exists>lut. build_lut bessel_j 400 20 (- 1) (- 2) = Inr lut \<and> length lut = 160000)"
  using build_lut_fails_iff_negative [of "- 1" bessel_j 20 "1 / 100" 20]
    build_lut_fails_iff_negative [of 400 bessel_j 20 "- 1" "- 2"]
  by simp

text \<open>
  The claim as written fails: a zero point count gives the empty table, a lower end
  \<open>rho = 0\<close> gives a table holding NaN, and a grid whose upper ends lie below the lower
  ones gives a table too.
\<close>

theorem build_lut_invalid_grid_counterexample:
  "build_lut bessel_j 0 20 (1 / 100) 20 = Inr []
   \<and> build_lut bessel_j 1 20 0 20 = Inr [(0, 0, NaN)]
   \<and> \<not> isl (build_lut bessel_j 2 (- 1) 1 (1 / 2))"
proof (intro conjI)
  show "build_lut bessel_j 0 20 (1 / 100) 20 = Inr []"
    using build_lut_table [of 0 20 "1 / 100" 20 bessel_j] by auto
  show "build_lut bessel_j 1 20 0 20 = Inr [(0, 0, NaN)]"
    by (simp add: build_lut_def linspace_def set_row_def intensity_np_zero)
  show "\<not> isl (build_lut bessel_j 2 (- 1) 1 (1 / 2))"
    using build_lut_table [of 2 "- 1" 1 "1 / 2" bessel_j] by auto
qed

end
